theory Spec2Isabelle
  imports Complex_Main "HOL-Library.Code_Target_Nat"
begin

section \<open>Configuration\<close>

text \<open>
  The seven PII categories of \<^verbatim>\<open>CONFIG.PII_TYPES\<close>, in the order of the array. The
  objects \<^verbatim>\<open>state.piiCounts\<close> and \<^verbatim>\<open>state.enabledFilters\<close> are built from that array
  with \<^verbatim>\<open>Object.fromEntries\<close>, so \<^verbatim>\<open>Object.entries\<close> enumerates them in this order.
\<close>

datatype pii_type = Email | Phone | Ssn | CreditCard | Address | Password | ApiKey

definition PII_TYPES :: "pii_type list" where
  "PII_TYPES = [Email, Phone, Ssn, CreditCard, Address, Password, ApiKey]"

text \<open>
  \<^verbatim>\<open>CONFIG.SCORE_WEIGHTS\<close>. A JavaScript number is a double; the weights are integers
  and are the reals they denote.
\<close>

fun SCORE_WEIGHTS :: "pii_type \<Rightarrow> real" where
  "SCORE_WEIGHTS Password = 25"
| "SCORE_WEIGHTS Ssn = 20"
| "SCORE_WEIGHTS CreditCard = 20"
| "SCORE_WEIGHTS ApiKey = 15"
| "SCORE_WEIGHTS Email = 10"
| "SCORE_WEIGHTS Phone = 8"
| "SCORE_WEIGHTS Address = 10"

section \<open>Strings\<close>

text \<open>
  A JavaScript string is a sequence of UTF-16 code units; \<^verbatim>\<open>length\<close>, \<^verbatim>\<open>indexOf\<close>,
  \<^verbatim>\<open>match.index\<close> and the offsets of a finding all count code units. A code unit is
  modelled by its number, and an ASCII literal is read through \<open>js\<close>.
\<close>

type_synonym code_unit = nat
type_synonym jsstring = "code_unit list"

definition js :: "string \<Rightarrow> jsstring" where
  "js s = map of_char s"

definition in_range :: "char \<Rightarrow> char \<Rightarrow> code_unit \<Rightarrow> bool" where
  "in_range lo hi u \<longleftrightarrow> of_char lo \<le> u \<and> u \<le> of_char hi"

definition one_of :: "string \<Rightarrow> code_unit \<Rightarrow> bool" where
  "one_of cs u \<longleftrightarrow> u \<in> set (js cs)"

definition is_digit :: "code_unit \<Rightarrow> bool" where
  "is_digit u \<longleftrightarrow> in_range CHR ''0'' CHR ''9'' u"

definition is_alpha :: "code_unit \<Rightarrow> bool" where
  "is_alpha u \<longleftrightarrow> in_range CHR ''a'' CHR ''z'' u \<or> in_range CHR ''A'' CHR ''Z'' u"

definition is_alnum :: "code_unit \<Rightarrow> bool" where
  "is_alnum u \<longleftrightarrow> is_alpha u \<or> is_digit u"

text \<open>The word characters of the word-boundary assertion: letters, digits and the underscore.\<close>

definition is_word :: "code_unit \<Rightarrow> bool" where
  "is_word u \<longleftrightarrow> is_alnum u \<or> one_of ''_'' u"

text \<open>
  The white space of the regular-expression class and of \<^verbatim>\<open>String.prototype.trim\<close>: the WhiteSpace and
  LineTerminator code points of ECMAScript (TAB, LF, VT, FF, CR, SP, NBSP, U+1680,
  U+2000 to U+200A, U+2028, U+2029, U+202F, U+205F, U+3000, U+FEFF).
\<close>

definition is_space :: "code_unit \<Rightarrow> bool" where
  "is_space u \<longleftrightarrow>
     (9 \<le> u \<and> u \<le> 13) \<or> u = 32 \<or> u = 160 \<or> u = 5760 \<or> (8192 \<le> u \<and> u \<le> 8202) \<or>
     u = 8232 \<or> u = 8233 \<or> u = 8239 \<or> u = 8287 \<or> u = 12288 \<or> u = 65279"

definition trim :: "jsstring \<Rightarrow> jsstring" where
  "trim s = rev (dropWhile is_space (rev (dropWhile is_space s)))"

text \<open>\<^verbatim>\<open>s.substring(i, j)\<close> for \<open>i \<le> j\<close>: the code units from \<open>i\<close> up to \<open>j\<close>, cut at the end of \<open>s\<close>.\<close>

definition substring :: "jsstring \<Rightarrow> nat \<Rightarrow> nat \<Rightarrow> jsstring" where
  "substring s i j = take (j - i) (drop i s)"

text \<open>
  \<^verbatim>\<open>s.indexOf(v)\<close>: the least position at which \<open>v\<close> occurs in \<open>s\<close>, \<open>None\<close> for
  \<^verbatim>\<open>-1\<close>. The empty string occurs at position 0.
\<close>

fun indexOf_from :: "jsstring \<Rightarrow> jsstring \<Rightarrow> nat \<Rightarrow> nat option" where
  "indexOf_from [] v k = (if v = [] then Some k else None)"
| "indexOf_from (c # s) v k =
     (if take (length v) (c # s) = v then Some k else indexOf_from s v (Suc k))"

definition indexOf :: "jsstring \<Rightarrow> jsstring \<Rightarrow> nat option" where
  "indexOf s v = indexOf_from s v 0"

section \<open>Regular expressions\<close>

text \<open>
  The five patterns of \<^verbatim>\<open>PiiDetector\<close> use character classes, the word-boundary
  assertion, concatenation, groups and greedy quantifiers; they have no alternative and
  no back-reference, so a group matters only through what it encloses.
\<close>

datatype regex =
    Eps
  | Atom "code_unit \<Rightarrow> bool"
  | WordB
  | Seq regex regex
  | Rep nat "nat option" regex

abbreviation Opt :: "regex \<Rightarrow> regex" where
  "Opt r \<equiv> Rep 0 (Some 1) r"

abbreviation Plus :: "regex \<Rightarrow> regex" where
  "Plus r \<equiv> Rep 1 None r"

abbreviation AtLeast :: "nat \<Rightarrow> regex \<Rightarrow> regex" where
  "AtLeast k r \<equiv> Rep k None r"

abbreviation Exactly :: "nat \<Rightarrow> regex \<Rightarrow> regex" where
  "Exactly k r \<equiv> Rep k (Some k) r"

abbreviation Between :: "nat \<Rightarrow> nat \<Rightarrow> regex \<Rightarrow> regex" where
  "Between k l r \<equiv> Rep k (Some l) r"

fun seqs :: "regex list \<Rightarrow> regex" where
  "seqs [] = Eps"
| "seqs (r # rs) = Seq r (seqs rs)"

text \<open>
  The backtracking matcher of ECMAScript, as the list of the end positions it would try
  in turn: the first one is the match, the later ones are what backtracking falls back
  on. \<open>rep m mn mx n x\<close> is RepeatMatcher for a body \<open>m\<close> at position \<open>x\<close> of an input
  of length \<open>n\<close>: nothing more once the upper bound is used up; while the lower bound is
  not reached the body must match; after that the body is tried first (greedy) and
  stopping here comes last. An iteration past the lower bound that consumes nothing is
  rejected; since a matcher never moves backwards nor past the end of the input
  (\<open>ends_range\<close> below), that is the guard \<open>x < y \<and> y \<le> n\<close>.
\<close>

definition dec :: "nat option \<Rightarrow> nat option" where
  "dec mx = map_option (\<lambda>k. k - 1) mx"

function rep :: "(nat \<Rightarrow> nat list) \<Rightarrow> nat \<Rightarrow> nat option \<Rightarrow> nat \<Rightarrow> nat \<Rightarrow> nat list" where
  "rep m mn mx n x =
     (if mx = Some 0 then [x]
      else if mn \<noteq> 0 then concat (map (\<lambda>y. rep m (mn - 1) (dec mx) n y) (m x))
      else concat (map (\<lambda>y. if x < y \<and> y \<le> n then rep m 0 (dec mx) n y else []) (m x)) @ [x])"
  by pat_completeness auto
termination
  by (relation "measures [\<lambda>(m, mn, mx, n, x). mn, \<lambda>(m, mn, mx, n, x). n - x]") auto

declare rep.simps [simp del]

definition word_before :: "jsstring \<Rightarrow> nat \<Rightarrow> bool" where
  "word_before t x \<longleftrightarrow> 0 < x \<and> x - 1 < length t \<and> is_word (t ! (x - 1))"

definition word_at :: "jsstring \<Rightarrow> nat \<Rightarrow> bool" where
  "word_at t x \<longleftrightarrow> x < length t \<and> is_word (t ! x)"

primrec ends :: "regex \<Rightarrow> jsstring \<Rightarrow> nat \<Rightarrow> nat list" where
  "ends Eps t x = [x]"
| "ends (Atom p) t x = (if x < length t \<and> p (t ! x) then [x + 1] else [])"
| "ends WordB t x = (if word_before t x \<noteq> word_at t x then [x] else [])"
| "ends (Seq a b) t x = concat (map (ends b t) (ends a t x))"
| "ends (Rep mn mx r) t x = rep (ends r t) mn mx (length t) x"

text \<open>
  RegExpBuiltinExec for a global pattern with \<^verbatim>\<open>lastIndex = i\<close>: the first start
  position from \<open>i\<close> on at which the matcher succeeds, with the end of the match.
\<close>

function exec :: "regex \<Rightarrow> jsstring \<Rightarrow> nat \<Rightarrow> (nat \<times> nat) option" where
  "exec r t i =
     (if length t < i then None
      else case ends r t i of e # _ \<Rightarrow> Some (i, e) | [] \<Rightarrow> exec r t (i + 1))"
  by pat_completeness auto
termination
  by (relation "measure (\<lambda>(r, t, i). length t + 1 - i)") auto

declare exec.simps [simp del]

subsection \<open>Where a match can end\<close>

lemma rep_range:
  "(\<forall>x y. x \<le> n \<longrightarrow> y \<in> set (m x) \<longrightarrow> x \<le> y \<and> y \<le> n) \<Longrightarrow> x \<le> n \<Longrightarrow>
   y \<in> set (rep m mn mx n x) \<Longrightarrow> x \<le> y \<and> y \<le> n"
proof (induction m mn mx n x arbitrary: y rule: rep.induct)
  case (1 m mn mx n x)
  note step = "1.prems"(1) [rule_format, OF "1.prems"(2)]
  from "1.prems"(3) consider
      (stop) "y = x"
    | (more) z where "mx \<noteq> Some 0" "mn \<noteq> 0" "z \<in> set (m x)" "y \<in> set (rep m (mn - 1) (dec mx) n z)"
    | (star) z where "mx \<noteq> Some 0" "\<not> mn \<noteq> 0" "z \<in> set (m x)" "x < z \<and> z \<le> n" "y \<in> set (rep m 0 (dec mx) n z)"
    by (subst (asm) rep.simps) (auto split: if_splits)
  then show ?case
  proof cases
    case stop
    with "1.prems"(2) show ?thesis by simp
  next
    case more
    from step [OF more(3)] have z: "x \<le> z" "z \<le> n" by simp_all
    from "1.IH"(1) [OF more(1,2,3) "1.prems"(1) z(2) more(4)] z show ?thesis by simp
  next
    case star
    from "1.IH"(2) [OF star(1,2,3,4) "1.prems"(1) _ star(5)] star(4) show ?thesis by simp
  qed
qed



lemma ends_range:
  "x \<le> length t \<Longrightarrow> y \<in> set (ends r t x) \<Longrightarrow> x \<le> y \<and> y \<le> length t"
proof (induction r arbitrary: x y)
  case Eps
  then show ?case by simp
next
  case (Atom p)
  then show ?case by (simp split: if_splits)
next
  case WordB
  then show ?case by (simp split: if_splits)
next
  case (Seq a b)
  from Seq.prems(2) obtain z where z: "z \<in> set (ends a t x)" and y: "y \<in> set (ends b t z)"
    by auto
  from Seq.IH(1) [OF Seq.prems(1) z] have xz: "x \<le> z" "z \<le> length t" by simp_all
  from Seq.IH(2) [OF xz(2) y] xz show ?case by simp
next
  case (Rep mn mx r)
  have "\<forall>x y. x \<le> length t \<longrightarrow> y \<in> set (ends r t x) \<longrightarrow> x \<le> y \<and> y \<le> length t"
    using Rep.IH by blast
  from rep_range [OF this Rep.prems(1)] Rep.prems(2) show ?case by simp
qed


text \<open>The least number of code units a match of the pattern consumes.\<close>

fun minlen :: "regex \<Rightarrow> nat" where
  "minlen Eps = 0"
| "minlen (Atom p) = 1"
| "minlen WordB = 0"
| "minlen (Seq a b) = minlen a + minlen b"
| "minlen (Rep mn mx r) = (case mx of None \<Rightarrow> mn | Some b \<Rightarrow> min mn b) * minlen r"

lemma rep_minlen:
  "(\<forall>x y. y \<in> set (m x) \<longrightarrow> x + k \<le> y) \<Longrightarrow> y \<in> set (rep m mn mx n x) \<Longrightarrow>
   x + (case mx of None \<Rightarrow> mn | Some b \<Rightarrow> min mn b) * k \<le> y"
proof (induction m mn mx n x arbitrary: y rule: rep.induct)
  case (1 m mn mx n x)
  note step = "1.prems"(1) [rule_format]
  from "1.prems"(2) consider
      (stop) "y = x" "mx = Some 0 \<or> mn = 0"
    | (more) z where "mx \<noteq> Some 0" "mn \<noteq> 0" "z \<in> set (m x)" "y \<in> set (rep m (mn - 1) (dec mx) n z)"
    | (star) z where "mx \<noteq> Some 0" "\<not> mn \<noteq> 0" "z \<in> set (m x)" "x < z \<and> z \<le> n" "y \<in> set (rep m 0 (dec mx) n z)"
    by (subst (asm) rep.simps) (auto split: if_splits)
  then show ?case
  proof cases
    case stop
    then show ?thesis by (auto split: option.splits)
  next
    case more
    from step [OF more(3)] have z: "x + k \<le> z" .
    from "1.IH"(1) [OF more(1,2,3) "1.prems"(1) more(4)]
    have "z + (case dec mx of None \<Rightarrow> mn - 1 | Some b \<Rightarrow> min (mn - 1) b) * k \<le> y" .
    moreover have "(case mx of None \<Rightarrow> mn | Some b \<Rightarrow> min mn b) =
      Suc (case dec mx of None \<Rightarrow> mn - 1 | Some b \<Rightarrow> min (mn - 1) b)"
      using more(1,2) by (cases mx) (auto simp: dec_def min_def)
    ultimately show ?thesis using z by simp
  next
    case star
    from "1.IH"(2) [OF star(1,2,3,4) "1.prems"(1) star(5)] star(2,4) show ?thesis
      by (simp split: option.splits)
  qed
qed


lemma ends_minlen: "y \<in> set (ends r t x) \<Longrightarrow> x + minlen r \<le> y"
proof (induction r arbitrary: x y)
  case Eps
  then show ?case by simp
next
  case (Atom p)
  then show ?case by (simp split: if_splits)
next
  case WordB
  then show ?case by (simp split: if_splits)
next
  case (Seq a b)
  from Seq.prems obtain z where z: "z \<in> set (ends a t x)" and y: "y \<in> set (ends b t z)"
    by auto
  from Seq.IH(1) [OF z] Seq.IH(2) [OF y] show ?case by simp
next
  case (Rep mn mx r)
  have "\<forall>x y. y \<in> set (ends r t x) \<longrightarrow> x + minlen r \<le> y"
    using Rep.IH by blast
  from rep_minlen [OF this] Rep.prems show ?case by simp
qed

lemma exec_Some:
  "exec r t i = Some (s, e) \<Longrightarrow> i \<le> s \<and> s \<le> length t \<and> e \<in> set (ends r t s)"
proof (induction r t i rule: exec.induct)
  case (1 r t i)
  from "1.prems" have le: "\<not> length t < i"
    by (subst (asm) exec.simps) (simp split: if_splits)
  show ?case
  proof (cases "ends r t i")
    case Nil
    with "1.prems" le have ex: "exec r t (i + 1) = Some (s, e)"
      by (subst (asm) exec.simps) simp
    from "1.IH" [OF le Nil ex] show ?thesis by simp
  next
    case (Cons e' es)
    with "1.prems" le have "s = i" "e = e'"
      by (subst (asm) exec.simps; simp)+
    with Cons le show ?thesis by simp
  qed
qed

lemma exec_bounds:
  assumes "exec r t i = Some (s, e)"
  shows "i \<le> s" and "s \<le> e" and "e \<le> length t" and "s + minlen r \<le> e"
proof -
  from exec_Some [OF assms] have s: "i \<le> s" "s \<le> length t" and e: "e \<in> set (ends r t s)"
    by simp_all
  from ends_range [OF s(2) e] ends_minlen [OF e] s
  show "i \<le> s" and "s \<le> e" and "e \<le> length t" and "s + minlen r \<le> e" by simp_all
qed

text \<open>
  The iterator of \<^verbatim>\<open>String.prototype.matchAll\<close> on a global pattern: \<^verbatim>\<open>exec\<close> is
  called again from the end of the previous match, one position further after an
  empty match, until it fails. Each match is its \<^verbatim>\<open>index\<close> and the end of
  \<^verbatim>\<open>match[0]\<close>.
\<close>

function matchAll_from :: "regex \<Rightarrow> jsstring \<Rightarrow> nat \<Rightarrow> (nat \<times> nat) list" where
  "matchAll_from r t i =
     (case exec r t i of
        None \<Rightarrow> []
      | Some (s, e) \<Rightarrow> (s, e) # matchAll_from r t (if e = s then e + 1 else e))"
  by pat_completeness auto
termination
proof (relation "measure (\<lambda>(r, t, i). length t + 1 - i)")
  fix r :: regex and t :: jsstring and i x2 s e :: nat and p
  assume "exec r t i = Some p" and "(s, e) = p"
  then have "exec r t i = Some (s, e)" by simp
  from exec_bounds(1-3) [OF this]
  show "((r, t, if e = s then e + 1 else e), r, t, i) \<in> measure (\<lambda>(r, t, i). length t + 1 - i)"
    by auto
qed simp

declare matchAll_from.simps [simp del]

definition matchAll :: "regex \<Rightarrow> jsstring \<Rightarrow> (nat \<times> nat) list" where
  "matchAll r t = matchAll_from r t 0"

lemma matchAll_from_bounds:
  "(s, e) \<in> set (matchAll_from r t i) \<Longrightarrow> s \<le> e \<and> e \<le> length t \<and> s + minlen r \<le> e"
proof (induction r t i rule: matchAll_from.induct)
  case (1 r t i)
  have unf: "matchAll_from r t i =
      (case exec r t i of None \<Rightarrow> []
       | Some (s, e) \<Rightarrow> (s, e) # matchAll_from r t (if e = s then e + 1 else e))"
    by (rule matchAll_from.simps)
  from "1.prems" obtain s' e' where ex: "exec r t i = Some (s', e')"
    by (cases "exec r t i") (auto simp: unf)
  with "1.prems" have
    mem: "(s, e) = (s', e') \<or> (s, e) \<in> set (matchAll_from r t (if e' = s' then e' + 1 else e'))"
    by (simp add: unf)
  from mem show ?case
  proof
    assume "(s, e) = (s', e')"
    with exec_bounds [OF ex] show ?thesis by simp
  next
    assume "(s, e) \<in> set (matchAll_from r t (if e' = s' then e' + 1 else e'))"
    from "1.IH" [OF ex refl this] show ?thesis .
  qed
qed


section \<open>The detector\<close>

text \<open>A finding \<^verbatim>\<open>{type, value, start, end}\<close>.\<close>

record finding =
  f_type :: pii_type
  f_value :: jsstring
  f_start :: nat
  f_end :: nat

text \<open>
  \<^verbatim>\<open>this.patterns\<close>, in the order of the object literal, which is the order of
  \<^verbatim>\<open>Object.entries\<close>. There is no pattern for \<^verbatim>\<open>address\<close> and \<^verbatim>\<open>password\<close>.
\<close>

definition is_sep :: "code_unit \<Rightarrow> bool" where
  "is_sep u \<longleftrightarrow> one_of ''-.'' u \<or> is_space u"

definition email_pattern :: regex where
  "email_pattern = seqs
     [WordB, Plus (Atom (\<lambda>u. is_alnum u \<or> one_of ''._%+-'' u)), Atom (one_of ''@''),
      Plus (Atom (\<lambda>u. is_alnum u \<or> one_of ''.-'' u)), Atom (one_of ''.''),
      AtLeast 2 (Atom is_alpha), WordB]"

definition phone_pattern :: regex where
  "phone_pattern = seqs
     [Opt (seqs [Opt (Atom (one_of ''+'')), Between 1 3 (Atom is_digit), Opt (Atom is_sep)]),
      Opt (Atom (one_of ''('')), Exactly 3 (Atom is_digit), Opt (Atom (one_of '')'')),
      Opt (Atom is_sep), Exactly 3 (Atom is_digit), Opt (Atom is_sep),
      Exactly 4 (Atom is_digit), WordB]"

definition ssn_pattern :: regex where
  "ssn_pattern = seqs
     [WordB, Exactly 3 (Atom is_digit), Atom (one_of ''-''), Exactly 2 (Atom is_digit),
      Atom (one_of ''-''), Exactly 4 (Atom is_digit), WordB]"

definition credit_card_pattern :: regex where
  "credit_card_pattern = seqs
     [WordB,
      Exactly 3 (seqs [Exactly 4 (Atom is_digit), Opt (Atom (\<lambda>u. one_of ''-'' u \<or> is_space u))]),
      Exactly 4 (Atom is_digit), WordB]"

definition api_key_pattern :: regex where
  "api_key_pattern = seqs [WordB, AtLeast 32 (Atom is_alnum), WordB]"

definition patterns :: "(pii_type \<times> regex) list" where
  "patterns =
     [(Email, email_pattern), (Phone, phone_pattern), (Ssn, ssn_pattern),
      (CreditCard, credit_card_pattern), (ApiKey, api_key_pattern)]"

text \<open>
  \<^verbatim>\<open>regexFallback\<close>: one finding per match of each pattern, with \<^verbatim>\<open>value = match[0]\<close>,
  \<^verbatim>\<open>start = match.index\<close> and \<^verbatim>\<open>end = match.index + match[0].length\<close>.
\<close>

definition match_finding :: "pii_type \<Rightarrow> jsstring \<Rightarrow> nat \<times> nat \<Rightarrow> finding" where
  "match_finding ty text m =
     (let match0 = substring text (fst m) (snd m) in
      \<lparr>f_type = ty, f_value = match0, f_start = fst m, f_end = fst m + length match0\<rparr>)"

definition regexFallback :: "jsstring \<Rightarrow> finding list" where
  "regexFallback text =
     concat (map (\<lambda>(ty, regex). map (match_finding ty text) (matchAll regex text)) patterns)"

text \<open>
  The fields of a \<^verbatim>\<open>PiiDetector\<close>; \<open>detectorInitialized\<close> is its \<^verbatim>\<open>isInitialized\<close>
  (the page state has a flag of the same name). A session is known by its handle.
\<close>

type_synonym session = nat

record pii_detector =
  session :: "session option"
  useRegexFallback :: bool
  detectorInitialized :: bool

definition new_detector :: pii_detector where
  "new_detector = \<lparr>session = None, useRegexFallback = False, detectorInitialized = False\<rparr>"

text \<open>
  What the host's language model does is an input of the model. Acquiring a session
  either gives one or fails (\<^verbatim>\<open>availability\<close> answers \<^verbatim>\<open>unavailable\<close>, or one of the
  two calls raises). A prompt either is rejected, or resolves to a text that
  \<^verbatim>\<open>JSON.parse\<close> refuses, or to \<^verbatim>\<open>null\<close> (reading \<^verbatim>\<open>pii_found\<close> of it raises), or to
  a value whose \<^verbatim>\<open>pii_found\<close> is not an array, or to one whose \<^verbatim>\<open>pii_found\<close> is the
  array given.
\<close>

datatype acquisition = AcquireFails | Acquired session

datatype prompt_outcome =
    PromptRejected
  | Unparsable
  | ParsedNull
  | ParsedNoArray
  | ParsedArray "finding list"

text \<open>The calls a run of \<^verbatim>\<open>detectPII\<close> makes, in order.\<close>

datatype call = CallInit | CallPrompt session jsstring | CallRegexFallback jsstring

definition init :: "acquisition \<Rightarrow> pii_detector \<Rightarrow> pii_detector" where
  "init acq d =
     (case acq of
        Acquired s \<Rightarrow> d\<lparr>session := Some s, useRegexFallback := False, detectorInitialized := True\<rparr>
      | AcquireFails \<Rightarrow> d\<lparr>useRegexFallback := True, detectorInitialized := True\<rparr>)"

text \<open>
  \<^verbatim>\<open>detectPII\<close> in two halves. \<open>detect_begin\<close> runs an initialised detector up to the
  point where it either returns or waits for the prompt it has issued; \<open>None\<close> is a
  \<^verbatim>\<open>null\<close> or \<^verbatim>\<open>undefined\<close> text. \<open>detect_resume\<close> is the rest of the \<^verbatim>\<open>try\<close> block
  and its \<^verbatim>\<open>catch\<close>, once the prompt has settled.
\<close>

datatype detect_step = Done "finding list" | Awaiting session jsstring

definition prompt_text :: "jsstring \<Rightarrow> jsstring" where
  "prompt_text text = js ''TEXT TO ANALYZE:'' @ [10] @ text"

definition falsy_or_blank :: "jsstring option \<Rightarrow> bool" where
  "falsy_or_blank text \<longleftrightarrow> (case text of None \<Rightarrow> True | Some t \<Rightarrow> t = [] \<or> trim t = [])"

definition detect_begin :: "pii_detector \<Rightarrow> jsstring option \<Rightarrow> call list \<times> detect_step" where
  "detect_begin d text =
     (if falsy_or_blank text then ([], Done [])
      else let t = the text in
        if useRegexFallback d \<or> session d = None
        then ([CallRegexFallback t], Done (regexFallback t))
        else ([CallPrompt (the (session d)) (prompt_text t)], Awaiting (the (session d)) t))"

definition detect_resume :: "jsstring \<Rightarrow> prompt_outcome \<Rightarrow> call list \<times> finding list" where
  "detect_resume t outcome =
     (case outcome of
        ParsedArray pii_found \<Rightarrow> ([], pii_found)
      | ParsedNoArray \<Rightarrow> ([], [])
      | _ \<Rightarrow> ([CallRegexFallback t], regexFallback t))"

record env =
  acquire :: acquisition
  prompt :: "session \<Rightarrow> jsstring \<Rightarrow> prompt_outcome"

text \<open>
  The whole of \<^verbatim>\<open>detectPII\<close> against a given host: the detector afterwards, the calls
  made and the findings returned.
\<close>

definition detectPII :: "env \<Rightarrow> pii_detector \<Rightarrow> jsstring option \<Rightarrow> pii_detector \<times> call list \<times> finding list" where
  "detectPII e d text =
     (let (d1, c1) = (if \<not> detectorInitialized d then (init (acquire e) d, [CallInit]) else (d, []))
      in case detect_begin d1 text of
           (c2, Done piiItems) \<Rightarrow> (d1, c1 @ c2, piiItems)
         | (c2, Awaiting s t) \<Rightarrow>
             (let (c3, piiItems) = detect_resume t (prompt e s (prompt_text t))
              in (d1, c1 @ c2 @ c3, piiItems)))"

section \<open>Privacy score\<close>

text \<open>
  \<^verbatim>\<open>Math.round\<close> returns the integer closest to its argument, a tie going towards
  \<open>+\<infinity>\<close>.
\<close>

definition Math_round :: "real \<Rightarrow> int" where
  "Math_round x = \<lfloor>x + 1 / 2\<rfloor>"

text \<open>
  JavaScript arithmetic is that of IEEE 754 doubles: the result of an operation is the
  exact result rounded to the nearest number with a significand of 53 bits, a tie going
  to the even significand. \<open>rne\<close> rounds a real to the nearest integer, a tie to the
  even one, and \<open>fl\<close> rounds a real to the nearest double: with \<open>e\<close> the exponent of
  \<open>x\<close>, the doubles around \<open>x\<close> are the multiples of \<open>2\<^sup>e\<^sup>-\<^sup>5\<^sup>2\<close>. The exponent is not
  bounded: the score never leaves the range of the normal doubles, since a count is at
  most the number of findings of one page.
\<close>

definition rne :: "real \<Rightarrow> int" where
  "rne y =
     (let f = \<lfloor>y\<rfloor> in
      if y - of_int f < 1 / 2 then f
      else if y - of_int f > 1 / 2 then f + 1
      else if even f then f else f + 1)"

definition fl :: "real \<Rightarrow> real" where
  "fl x =
     (if x = 0 then 0
      else let u = 2 powr (of_int \<lfloor>log 2 \<bar>x\<bar>\<rfloor> - 52) in of_int (rne (x / u)) * u)"

text \<open>
  The subexpressions of the loop body of \<^verbatim>\<open>calculatePrivacyScore\<close>:
  \<^verbatim>\<open>CONFIG.SCORE_WEIGHTS[type] * 0.3\<close>, where the literal \<^verbatim>\<open>0.3\<close> is the double nearest
  to \<open>3/10\<close>, and
  \<^verbatim>\<open>Math.min((count - 1) * (CONFIG.SCORE_WEIGHTS[type] * 0.3), CONFIG.SCORE_WEIGHTS[type])\<close>.
  A count is a natural number.
\<close>

definition weight_share :: "pii_type \<Rightarrow> real" where
  "weight_share ty = fl (SCORE_WEIGHTS ty * fl (3 / 10))"

definition repeat_penalty :: "pii_type \<Rightarrow> nat \<Rightarrow> real" where
  "repeat_penalty ty count =
     min (fl (fl (real count - 1) * weight_share ty)) (SCORE_WEIGHTS ty)"

text \<open>
  The body of the \<^verbatim>\<open>for\<close> loop of \<^verbatim>\<open>calculatePrivacyScore\<close> for one entry
  \<^verbatim>\<open>[type, count]\<close>; a weight is truthy when it is not zero. Each \<^verbatim>\<open>score -= ...\<close>
  rounds its difference.
\<close>

definition score_entry :: "(pii_type \<Rightarrow> nat) \<Rightarrow> pii_type \<Rightarrow> real \<Rightarrow> real" where
  "score_entry piiCounts ty score =
     (let count = piiCounts ty in
      if count > 0 \<and> SCORE_WEIGHTS ty \<noteq> 0 then
        (let score1 = fl (score - SCORE_WEIGHTS ty) in
         if count > 1 then fl (score1 - repeat_penalty ty count) else score1)
      else score)"

definition calculatePrivacyScore :: "(pii_type \<Rightarrow> nat) \<Rightarrow> int" where
  "calculatePrivacyScore piiCounts =
     max 0 (min 100 (Math_round (fold (score_entry piiCounts) PII_TYPES 100)))"

definition getScoreColor :: "int \<Rightarrow> string" where
  "getScoreColor score =
     (if score \<ge> 80 then ''SAFE'' else if score \<ge> 50 then ''MODERATE'' else ''HIGH RISK'')"

section \<open>The page and the state of the content script\<close>

text \<open>
  A text node and an overlay element are known by their identity. The page is what the
  content script reads of the document and does not own: the text nodes below
  \<^verbatim>\<open>document.body\<close> in document order, for a text node its parent element (tag name
  in lower case, and whether its class list has \<^verbatim>\<open>screenguard-overlay\<close>), its text,
  whether the document contains its parent, the client rectangles of a range of its
  text and the bounding rectangle of all of it (\<open>None\<close> when there is none to read).
  The page can differ from one event to the next.
\<close>

type_synonym node = nat
type_synonym element_id = nat

record rect =
  r_left :: real
  r_top :: real
  r_width :: real
  r_height :: real

record parent_element =
  tag :: string
  is_overlay :: bool

record page =
  walk :: "node list"
  parentElement :: "node \<Rightarrow> parent_element option"
  textContent :: "node \<Rightarrow> jsstring"
  parent_in_document :: "node \<Rightarrow> bool"
  getClientRects :: "node \<Rightarrow> nat \<Rightarrow> nat \<Rightarrow> rect list"
  getBoundingClientRect :: "node \<Rightarrow> rect option"

text \<open>
  An overlay element as \<^verbatim>\<open>createOverlay\<close> makes it: its \<^verbatim>\<open>data-pii-type\<close> and the four
  lengths of its style; class name, position, z-index and \<^verbatim>\<open>pointer-events: none\<close> are
  the same for all. The privacy badge and the \<^verbatim>\<open>pii_detected\<close> message carry what
  \<^verbatim>\<open>updatePrivacyBadge\<close> and \<^verbatim>\<open>updateBadge\<close> put in them.
\<close>

record overlay =
  piiType :: pii_type
  style :: rect

record badge =
  badge_score :: int
  badge_label :: string
  badge_total :: nat

record message =
  msg_count :: nat
  msg_privacyScore :: int
  msg_piiCounts :: "pii_type \<Rightarrow> nat"

text \<open>
  The object \<^verbatim>\<open>state\<close>, and with it what the content script has put into the document:
  the overlay elements it has created (a store from identity to element, \<open>created\<close>
  counting them), those that are children of \<^verbatim>\<open>document.body\<close>, the privacy badge, and
  the messages sent. \<^verbatim>\<open>maskedElements\<close> is a \<^verbatim>\<open>Map\<close>: its entries in insertion order.
  The fields for image moderation are not read on the scan path, which has
  \<^verbatim>\<open>scanImages\<close> commented out, and are left out.
\<close>

record state =
  detector :: pii_detector
  isEnabled :: bool
  isInitialized :: bool
  processedNodes :: "node set"
  maskedElements :: "(node \<times> element_id list) list"
  enabledFilters :: "pii_type \<Rightarrow> bool"
  privacyScore :: int
  piiCounts :: "pii_type \<Rightarrow> nat"
  elements :: "element_id \<Rightarrow> overlay option"
  created :: nat
  body :: "element_id list"
  privacy_badge :: "badge option"
  sent :: "message list"

definition initial_state :: state where
  "initial_state =
     \<lparr>detector = new_detector, isEnabled = True, isInitialized = False, processedNodes = {},
      maskedElements = [], enabledFilters = (\<lambda>_. True), privacyScore = 100,
      piiCounts = (\<lambda>_. 0), elements = (\<lambda>_. None), created = 0, body = [],
      privacy_badge = None, sent = []\<rparr>"

definition EXCLUDED_TAGS :: "string list" where
  "EXCLUDED_TAGS = [''script'', ''style'', ''noscript'', ''iframe'']"

definition MIN_TEXT_LENGTH :: nat where
  "MIN_TEXT_LENGTH = 5"

definition acceptNode :: "page \<Rightarrow> node \<Rightarrow> bool" where
  "acceptNode pg n =
     (case parentElement pg n of
        None \<Rightarrow> False
      | Some parent \<Rightarrow>
          \<not> (tag parent \<in> set EXCLUDED_TAGS \<or> is_overlay parent \<or>
             length (trim (textContent pg n)) < MIN_TEXT_LENGTH))"

definition getTextNodes :: "page \<Rightarrow> node list" where
  "getTextNodes pg = filter (acceptNode pg) (walk pg)"

definition resetPrivacyData :: "state \<Rightarrow> state" where
  "resetPrivacyData st = st\<lparr>privacyScore := 100, piiCounts := (\<lambda>_. 0)\<rparr>"

section \<open>Masking\<close>

text \<open>The operations \<^verbatim>\<open>has\<close>, \<^verbatim>\<open>get\<close>, \<^verbatim>\<open>set\<close> and \<^verbatim>\<open>delete\<close> of a \<^verbatim>\<open>Map\<close>.\<close>

definition map_has :: "('k \<times> 'v) list \<Rightarrow> 'k \<Rightarrow> bool" where
  "map_has m k \<longleftrightarrow> k \<in> fst ` set m"

definition map_get :: "('k \<times> 'v) list \<Rightarrow> 'k \<Rightarrow> 'v option" where
  "map_get m k = map_of m k"

fun map_set :: "('k \<times> 'v) list \<Rightarrow> 'k \<Rightarrow> 'v \<Rightarrow> ('k \<times> 'v) list" where
  "map_set [] k v = [(k, v)]"
| "map_set (e # m) k v = (if fst e = k then (k, v) # m else e # map_set m k v)"

definition map_delete :: "('k \<times> 'v) list \<Rightarrow> 'k \<Rightarrow> ('k \<times> 'v) list" where
  "map_delete m k = filter (\<lambda>e. fst e \<noteq> k) m"

definition createOverlay :: "rect \<Rightarrow> pii_type \<Rightarrow> overlay" where
  "createOverlay rect ty =
     \<lparr>piiType = ty,
      style = \<lparr>r_left = r_left rect, r_top = r_top rect, r_width = r_width rect,
               r_height = r_height rect\<rparr>\<rparr>"

text \<open>
  \<^verbatim>\<open>addOverlay\<close> for a text node: a new overlay element is appended to the body and
  pushed on the list the \<^verbatim>\<open>Map\<close> holds for the node, which is made first if missing.
\<close>

definition addOverlay :: "state \<Rightarrow> node \<Rightarrow> rect \<Rightarrow> pii_type \<Rightarrow> state" where
  "addOverlay st element rect ty =
     (let overlay = created st;
          m = (if \<not> map_has (maskedElements st) element
               then map_set (maskedElements st) element [] else maskedElements st)
      in st\<lparr>elements := (elements st)(overlay \<mapsto> createOverlay rect ty),
            created := created st + 1,
            body := body st @ [overlay],
            maskedElements := map_set m element (the (map_get m element) @ [overlay])\<rparr>)"

text \<open>
  \<^verbatim>\<open>maskElement\<close> for a text node. For one finding, the range to mask starts at
  \<^verbatim>\<open>text.indexOf(pii.value)\<close> and is as long as the value; a finding whose value does
  not occur is passed over. Every client rectangle of the range with positive width and
  height gets an overlay.
\<close>

definition mask_range :: "jsstring \<Rightarrow> finding \<Rightarrow> (nat \<times> nat) option" where
  "mask_range text pii =
     (case indexOf text (f_value pii) of
        None \<Rightarrow> None
      | Some index \<Rightarrow> Some (index, index + length (f_value pii)))"

definition mask_finding :: "page \<Rightarrow> node \<Rightarrow> jsstring \<Rightarrow> finding \<Rightarrow> state \<Rightarrow> state" where
  "mask_finding pg element text pii st =
     (case mask_range text pii of
        None \<Rightarrow> st
      | Some (s, e) \<Rightarrow>
          fold (\<lambda>rect st. if r_width rect > 0 \<and> r_height rect > 0
                           then addOverlay st element rect (f_type pii) else st)
            (getClientRects pg element s e) st)"

definition maskElement :: "page \<Rightarrow> state \<Rightarrow> node \<Rightarrow> finding list \<Rightarrow> state" where
  "maskElement pg st element piiItems =
     fold (mask_finding pg element (textContent pg element)) piiItems st"

text \<open>
  \<^verbatim>\<open>clearAllMasks\<close>: every overlay of every entry is taken out of the body, then the
  \<^verbatim>\<open>Map\<close> is emptied, \<^verbatim>\<open>processedNodes\<close> is replaced by a new empty set and the badge
  is removed.
\<close>

definition removeChild :: "element_id \<Rightarrow> state \<Rightarrow> state" where
  "removeChild overlay st = st\<lparr>body := removeAll overlay (body st)\<rparr>"

definition clearAllMasks :: "state \<Rightarrow> state" where
  "clearAllMasks st =
     (fold (\<lambda>(node, overlays). fold removeChild overlays) (maskedElements st) st)
       \<lparr>maskedElements := [], processedNodes := {}, privacy_badge := None\<rparr>"

text \<open>
  \<^verbatim>\<open>updateOverlayPositions\<close>, for the text nodes that key the \<^verbatim>\<open>Map\<close>. An entry whose
  node has left the document loses its overlays and is deleted. Otherwise, when the
  node has a bounding rectangle of positive width and height, each of its overlays gets
  that rectangle as its style; when it has not, nothing is done.
\<close>

definition restyle :: "rect \<Rightarrow> overlay \<Rightarrow> overlay" where
  "restyle rect el =
     el\<lparr>style := \<lparr>r_left = r_left rect, r_top = r_top rect, r_width = r_width rect,
                    r_height = r_height rect\<rparr>\<rparr>"

definition set_style :: "rect \<Rightarrow> element_id \<Rightarrow> state \<Rightarrow> state" where
  "set_style rect overlay st =
     st\<lparr>elements := (elements st)(overlay := map_option (restyle rect) (elements st overlay))\<rparr>"

definition reposition_entry :: "page \<Rightarrow> node \<times> element_id list \<Rightarrow> state \<Rightarrow> state" where
  "reposition_entry pg entry st =
     (let node = fst entry; overlays = snd entry in
      if \<not> parent_in_document pg node then
        (fold removeChild overlays st)\<lparr>maskedElements := map_delete (maskedElements st) node\<rparr>
      else
        (case getBoundingClientRect pg node of
           None \<Rightarrow> st
         | Some rect \<Rightarrow>
             if r_width rect > 0 \<and> r_height rect > 0 then fold (set_style rect) overlays st
             else st))"

definition updateOverlayPositions :: "page \<Rightarrow> state \<Rightarrow> state" where
  "updateOverlayPositions pg st = fold (reposition_entry pg) (maskedElements st) st"

section \<open>Scanning\<close>

text \<open>
  The end of \<^verbatim>\<open>scanPage\<close>: the score is computed from the counts, the badge is put
  up (unless disabled) and the \<^verbatim>\<open>pii_detected\<close> message is sent.
\<close>

definition updatePrivacyBadge :: "state \<Rightarrow> state" where
  "updatePrivacyBadge st =
     (if \<not> isEnabled st then st
      else st\<lparr>privacy_badge := Some
             \<lparr>badge_score = privacyScore st, badge_label = getScoreColor (privacyScore st),
              badge_total = sum_list (map (piiCounts st) PII_TYPES)\<rparr>\<rparr>)"

definition updateBadge :: "nat \<Rightarrow> state \<Rightarrow> state" where
  "updateBadge count st =
     st\<lparr>sent := sent st @
        [\<lparr>msg_count = count, msg_privacyScore = privacyScore st, msg_piiCounts = piiCounts st\<rparr>]\<rparr>"

definition scan_finish :: "state \<Rightarrow> nat \<Rightarrow> state" where
  "scan_finish st totalFound =
     updateBadge totalFound
       (updatePrivacyBadge (st\<lparr>privacyScore := calculatePrivacyScore (piiCounts st)\<rparr>))"

text \<open>
  The body of the loop of \<^verbatim>\<open>scanPage\<close> from the point where \<^verbatim>\<open>detectPII\<close> has
  answered with \<open>piiItems\<close>: the findings of enabled categories are kept; if any is
  left the node is masked with them, they are added to the total and each one is
  counted; the node is recorded as processed.
\<close>

definition count_item :: "finding \<Rightarrow> state \<Rightarrow> state" where
  "count_item item st =
     st\<lparr>piiCounts := (piiCounts st)(f_type item := piiCounts st (f_type item) + 1)\<rparr>"

definition scan_items :: "page \<Rightarrow> state \<Rightarrow> node \<Rightarrow> finding list \<Rightarrow> nat \<Rightarrow> state \<times> nat" where
  "scan_items pg st node piiItems totalFound =
     (let filteredItems = filter (\<lambda>item. enabledFilters st (f_type item)) piiItems;
          (st1, total1) =
            (if length filteredItems > 0
             then (fold count_item filteredItems (maskElement pg st node filteredItems),
                   totalFound + length filteredItems)
             else (st, totalFound))
      in (st1\<lparr>processedNodes := insert node (processedNodes st1)\<rparr>, total1))"

text \<open>
  A pass of \<^verbatim>\<open>scanPage\<close> that waits for a prompt: the node and the text it was asked
  about, the nodes still to visit and the total so far. \<^verbatim>\<open>scanPage\<close> runs only when
  \<^verbatim>\<open>state.isInitialized\<close>, which \<^verbatim>\<open>initDetector\<close> sets once \<^verbatim>\<open>detector.init()\<close> is
  through (\<open>initialised_invariant\<close> below), so \<^verbatim>\<open>detectPII\<close> is entered past its first
  line. In fallback mode, or for a blank text, \<^verbatim>\<open>detectPII\<close> is settled when it
  returns and the loop goes on within the same task; in model-backed mode the prompt is
  pending and the pass is suspended, other events being handled meanwhile.
\<close>

record pass =
  awaited_node :: node
  awaited_text :: jsstring
  remaining :: "node list"
  totalFound :: nat

fun scan_loop :: "page \<Rightarrow> state \<Rightarrow> node list \<Rightarrow> nat \<Rightarrow> state \<times> pass option" where
  "scan_loop pg st [] found = (scan_finish st found, None)"
| "scan_loop pg st (node # rest) found =
     (if node \<in> processedNodes st then scan_loop pg st rest found
      else let text = textContent pg node in
        if text = [] \<or> length (trim text) < MIN_TEXT_LENGTH then scan_loop pg st rest found
        else case snd (detect_begin (detector st) (Some text)) of
               Done piiItems \<Rightarrow>
                 (let (st1, total1) = scan_items pg st node piiItems found
                  in scan_loop pg st1 rest total1)
             | Awaiting s t \<Rightarrow>
                 (st, Some \<lparr>awaited_node = node, awaited_text = text, remaining = rest,
                            totalFound = found\<rparr>))"

text \<open>
  The content script as a whole: its state and the passes in flight. \<^verbatim>\<open>scanPage\<close>
  returns at once when disabled or not initialised; otherwise it clears the masks,
  resets the privacy data and walks the text nodes of the page.
\<close>

record system =
  page_state :: state
  in_flight :: "pass list"

definition scanPage :: "page \<Rightarrow> system \<Rightarrow> system" where
  "scanPage pg sys =
     (if \<not> isEnabled (page_state sys) \<or> \<not> isInitialized (page_state sys) then sys
      else let (st, p) = scan_loop pg (resetPrivacyData (clearAllMasks (page_state sys)))
                           (getTextNodes pg) 0
           in \<lparr>page_state = st,
               in_flight = in_flight sys @ (case p of None \<Rightarrow> [] | Some q \<Rightarrow> [q])\<rparr>)"

text \<open>
  The prompt of the \<open>k\<close>-th pass in flight settles: \<^verbatim>\<open>detectPII\<close> returns, the node is
  dealt with and the loop goes on, on the page as it is now, until it ends or waits
  again.
\<close>

definition resume :: "page \<Rightarrow> nat \<Rightarrow> prompt_outcome \<Rightarrow> system \<Rightarrow> system" where
  "resume pg k outcome sys =
     (if k < length (in_flight sys) then
        (let p = in_flight sys ! k;
             piiItems = snd (detect_resume (awaited_text p) outcome);
             (st1, total1) = scan_items pg (page_state sys) (awaited_node p) piiItems (totalFound p);
             (st2, q) = scan_loop pg st1 (remaining p) total1
         in \<lparr>page_state = st2,
             in_flight = take k (in_flight sys) @ (case q of None \<Rightarrow> [] | Some q' \<Rightarrow> [q']) @
                         drop (k + 1) (in_flight sys)\<rparr>)
      else sys)"

section \<open>Events\<close>

text \<open>
  What the content script reacts to: the end of \<^verbatim>\<open>loadSettings\<close> at start-up, which
  runs \<^verbatim>\<open>initDetector\<close>; the four messages of the listener; the time-out that the
  mutation observer sets (and sets anew on every further mutation within the delay); the
  animation frame after a scroll or a resize; and a pending prompt that settles.
\<close>

datatype event =
    Startup acquisition
  | Get_status
  | Toggle bool
  | Rescan
  | Filter_change pii_type bool
  | Rescan_timeout
  | Scroll_or_resize
  | Prompt_settled nat prompt_outcome

fun handle :: "page \<Rightarrow> event \<Rightarrow> system \<Rightarrow> system" where
  "handle pg (Startup acq) sys =
     scanPage pg (sys\<lparr>page_state := (page_state sys)
       \<lparr>detector := init acq new_detector, isInitialized := True\<rparr>\<rparr>)"
| "handle pg Get_status sys = sys"
| "handle pg (Toggle enabled) sys =
     (let sys1 = sys\<lparr>page_state := (page_state sys)\<lparr>isEnabled := enabled\<rparr>\<rparr>
      in if isEnabled (page_state sys1) then scanPage pg sys1
         else sys1\<lparr>page_state := clearAllMasks (page_state sys1)\<rparr>)"
| "handle pg Rescan sys = scanPage pg sys"
| "handle pg (Filter_change ty enabled) sys =
     sys\<lparr>page_state := (page_state sys)
       \<lparr>enabledFilters := (enabledFilters (page_state sys))(ty := enabled)\<rparr>\<rparr>"
| "handle pg Rescan_timeout sys = scanPage pg sys"
| "handle pg Scroll_or_resize sys =
     sys\<lparr>page_state := updateOverlayPositions pg (page_state sys)\<rparr>"
| "handle pg (Prompt_settled k outcome) sys = resume pg k outcome sys"

text \<open>A run: each event is handled on the page as it is when the event arrives.\<close>

fun run :: "(page \<times> event) list \<Rightarrow> system \<Rightarrow> system" where
  "run [] sys = sys"
| "run ((pg, ev) # evs) sys = run evs (handle pg ev sys)"

section \<open>Double precision and exact arithmetic\<close>

text \<open>
  The score in exact arithmetic: the loop body and the function with every rounding
  left out. The section proves that \<^verbatim>\<open>calculatePrivacyScore\<close> returns the same integer
  in double precision: every intermediate value is a multiple of \<open>1/2\<close> and exact,
  except the share of a phone count of 2, 3 or 4, whose error is too small to move
  the rounded score.
\<close>

definition exact_repeat :: "pii_type \<Rightarrow> nat \<Rightarrow> real" where
  "exact_repeat ty count =
     min ((real count - 1) * (SCORE_WEIGHTS ty * (3 / 10))) (SCORE_WEIGHTS ty)"

definition exact_entry :: "(pii_type \<Rightarrow> nat) \<Rightarrow> pii_type \<Rightarrow> real \<Rightarrow> real" where
  "exact_entry counts ty score =
     (let count = counts ty in
      if count > 0 \<and> SCORE_WEIGHTS ty \<noteq> 0 then
        (let score1 = score - SCORE_WEIGHTS ty in
         if count > 1 then score1 - exact_repeat ty count else score1)
      else score)"

definition exact_score :: "(pii_type \<Rightarrow> nat) \<Rightarrow> int" where
  "exact_score counts =
     max 0 (min 100 (Math_round (fold (exact_entry counts) PII_TYPES 100)))"

definition half :: "real \<Rightarrow> bool" where
  "half x \<longleftrightarrow> 2 * x \<in> \<int>"

subsection \<open>Rounding to the nearest double\<close>

lemma rne_err: "\<bar>of_int (rne y) - y\<bar> \<le> 1 / 2"
proof -
  have "of_int \<lfloor>y\<rfloor> \<le> y" "y < of_int \<lfloor>y\<rfloor> + 1" by linarith+
  then show ?thesis by (auto simp: rne_def Let_def abs_le_iff)
qed

lemma rne_of_int: "rne (of_int k) = k"
  by (simp add: rne_def)

lemma fl_binade:
  assumes "2 powr of_int e \<le> \<bar>x\<bar>" and "\<bar>x\<bar> < 2 powr (of_int e + 1)"
  shows "fl x = of_int (rne (x / 2 powr (of_int e - 52))) * 2 powr (of_int e - 52)"
proof -
  from assms(1) have pos: "0 < \<bar>x\<bar>" by (smt (verit) powr_gt_zero)
  then have x0: "x \<noteq> 0" by simp
  from assms pos have "of_int e \<le> log 2 \<bar>x\<bar>" "log 2 \<bar>x\<bar> < of_int e + 1"
    by (simp_all add: le_log_iff log_less_iff)
  then have "\<lfloor>log 2 \<bar>x\<bar>\<rfloor> = e" by linarith
  with x0 show ?thesis by (simp add: fl_def Let_def)
qed

lemma binade_exists:
  assumes "x \<noteq> 0"
  shows "2 powr of_int \<lfloor>log 2 \<bar>x\<bar>\<rfloor> \<le> \<bar>x\<bar> \<and> \<bar>x\<bar> < 2 powr (of_int \<lfloor>log 2 \<bar>x\<bar>\<rfloor> + 1)"
proof -
  from assms have pos: "0 < \<bar>x\<bar>" by simp
  have "of_int \<lfloor>log 2 \<bar>x\<bar>\<rfloor> \<le> log 2 \<bar>x\<bar>" "log 2 \<bar>x\<bar> < of_int \<lfloor>log 2 \<bar>x\<bar>\<rfloor> + 1"
    by linarith+
  with pos show ?thesis
    using powr_le_iff [of 2 "\<bar>x\<bar>" "of_int \<lfloor>log 2 \<bar>x\<bar>\<rfloor>"]
      less_powr_iff [of 2 "\<bar>x\<bar>" "of_int \<lfloor>log 2 \<bar>x\<bar>\<rfloor> + 1"]
    by simp
qed

lemma fl_err: "\<bar>fl x - x\<bar> \<le> \<bar>x\<bar> * 2 powr (- 53)"
proof (cases "x = 0")
  case True
  then show ?thesis by (simp add: fl_def)
next
  case False
  define e where "e = \<lfloor>log 2 \<bar>x\<bar>\<rfloor>"
  define u :: real where "u = 2 powr (of_int e - 52)"
  have u: "0 < u" by (simp add: u_def)
  from binade_exists [OF False] have b: "2 powr of_int e \<le> \<bar>x\<bar>" by (simp add: e_def)
  from False have "fl x = of_int (rne (x / u)) * u" by (simp add: fl_def Let_def e_def u_def)
  then have "fl x - x = (of_int (rne (x / u)) - x / u) * u" using u by (simp add: field_simps)
  then have "\<bar>fl x - x\<bar> = \<bar>of_int (rne (x / u)) - x / u\<bar> * u" using u by (simp add: abs_mult)
  also have "\<dots> \<le> (1 / 2) * u" using rne_err [of "x / u"] u by (intro mult_right_mono) simp_all
  also have "\<dots> = 2 powr of_int e * 2 powr (- 53)"
    by (simp add: u_def powr_diff powr_minus field_simps)
  also have "\<dots> \<le> \<bar>x\<bar> * 2 powr (- 53)" using b by (intro mult_right_mono) simp_all
  finally show ?thesis .
qed


lemma fl_exact_half:
  assumes "2 * x = of_int k" and "\<bar>x\<bar> < 2 ^ 52"
  shows "fl x = x"
proof (cases "x = 0")
  case True
  then show ?thesis by (simp add: fl_def)
next
  case False
  define e where "e = \<lfloor>log 2 \<bar>x\<bar>\<rfloor>"
  from binade_exists [OF False] have b: "2 powr of_int e \<le> \<bar>x\<bar>" by (simp add: e_def)
  have "(2::real) powr 52 = 2 ^ 52" by (simp add: powr_numeral)
  with assms(2) b have "(2::real) powr of_int e < 2 powr 52" by linarith
  from powr_less_cancel [OF this] have "real_of_int e < 52" by simp
  then have e: "e \<le> 51" by simp
  define n where "n = nat (51 - e)"
  from e have n: "51 - e = int n" by (simp add: n_def)
  have p: "(2::real) powr (1 + real n) = 2 * 2 ^ n" by (simp add: powr_add powr_realpow)
  have "(2::real) powr (of_int e - 52) = 2 powr (- (1 + of_int (51 - e)))" by simp
  also have "\<dots> = 2 powr (- (1 + real n))" by (simp only: n of_int_of_nat_eq)
  also have "\<dots> = 1 / (2 * 2 ^ n)" by (simp only: powr_minus_divide p)
  finally have u: "(2::real) powr (of_int e - 52) = 1 / (2 * 2 ^ n)" .
  have "x / (1 / (2 * 2 ^ n)) = (2 * x) * 2 ^ n" by simp
  also have "\<dots> = of_int (k * 2 ^ n)" by (simp add: assms(1))
  finally have q: "x / (1 / (2 * 2 ^ n)) = of_int (k * 2 ^ n)" .
  from False have "fl x = of_int (rne (x / (1 / (2 * 2 ^ n)))) * (1 / (2 * 2 ^ n))"
    by (simp add: fl_def Let_def e_def [symmetric] u)
  also have "\<dots> = of_int (k * 2 ^ n) * (1 / (2 * 2 ^ n))"
    by (simp only: q rne_of_int)
  also have "\<dots> = x" using assms(1) by (simp add: field_simps)
  finally show ?thesis .
qed


text \<open>The literal 0.3 and the products of the weights with it.\<close>

lemma fl_eval:
  assumes "2 powr of_int e \<le> \<bar>x\<bar>" and "\<bar>x\<bar> < 2 powr (of_int e + 1)"
    and "rne (x / 2 powr (of_int e - 52)) = m"
  shows "fl x = of_int m * 2 powr (of_int e - 52)"
  using fl_binade [OF assms(1,2)] assms(3) by simp

lemma c03: "fl (3 / 10) = 5404319552844595 / 2 ^ 54"
proof -
  have "fl (3 / 10) = of_int 5404319552844595 * 2 powr (of_int (- 2) - 52)"
    by (rule fl_eval) (simp_all add: rne_def powr_minus field_simps)
  then show ?thesis by (simp add: powr_minus field_simps)
qed


lemma weight_share_values:
  "weight_share Password = 15 / 2"
  "weight_share Ssn = 6"
  "weight_share CreditCard = 6"
  "weight_share ApiKey = 9 / 2"
  "weight_share Email = 3"
  "weight_share Address = 3"
  "weight_share Phone = 5404319552844595 / 2 ^ 51"
proof -
  have a: "fl (25 * (5404319552844595 / 2 ^ 54)) = of_int 8444249301319680 * 2 powr (of_int 2 - 52)"
    by (rule fl_eval) (simp_all add: rne_def powr_minus field_simps)
  have b: "fl (20 * (5404319552844595 / 2 ^ 54)) = of_int 6755399441055744 * 2 powr (of_int 2 - 52)"
    by (rule fl_eval) (simp_all add: rne_def powr_minus field_simps)
  have c: "fl (15 * (5404319552844595 / 2 ^ 54)) = of_int 5066549580791808 * 2 powr (of_int 2 - 52)"
    by (rule fl_eval) (simp_all add: rne_def powr_minus field_simps)
  have d: "fl (10 * (5404319552844595 / 2 ^ 54)) = of_int 6755399441055744 * 2 powr (of_int 1 - 52)"
    by (rule fl_eval) (simp_all add: rne_def powr_minus field_simps)
  have e: "fl (8 * (5404319552844595 / 2 ^ 54)) = of_int 5404319552844595 * 2 powr (of_int 1 - 52)"
    by (rule fl_eval) (simp_all add: rne_def powr_minus field_simps)
  show "weight_share Password = 15 / 2" using a by (simp add: weight_share_def c03 powr_minus)
  show "weight_share Ssn = 6" using b by (simp add: weight_share_def c03 powr_minus)
  show "weight_share CreditCard = 6" using b by (simp add: weight_share_def c03 powr_minus)
  show "weight_share ApiKey = 9 / 2" using c by (simp add: weight_share_def c03 powr_minus)
  show "weight_share Email = 3" using d by (simp add: weight_share_def c03 powr_minus)
  show "weight_share Address = 3" using d by (simp add: weight_share_def c03 powr_minus)
  show "weight_share Phone = 5404319552844595 / 2 ^ 51"
    using e by (simp add: weight_share_def c03 powr_minus)
qed


lemma eps_small: "(2::real) powr (- 53) \<le> 1 / 2 ^ 53"
  by (simp add: powr_minus_divide)

lemma fl_bounds:
  assumes "0 \<le> x"
  shows "x * (1 - 1 / 2 ^ 53) \<le> fl x" and "fl x \<le> x * (1 + 1 / 2 ^ 53)"
proof -
  define e :: real where "e = 1 / 2 ^ 53"
  have "\<bar>fl x - x\<bar> \<le> \<bar>x\<bar> * e"
    using fl_err [of x] eps_small unfolding e_def
    by (meson abs_ge_zero mult_left_mono order_trans)
  with assms have "x - x * e \<le> fl x" "fl x \<le> x + x * e" by (simp_all add: abs_le_iff)
  then show "x * (1 - 1 / 2 ^ 53) \<le> fl x" and "fl x \<le> x * (1 + 1 / 2 ^ 53)"
    unfolding e_def [symmetric] by (simp_all add: algebra_simps)
qed

lemmas fl_lower = fl_bounds(1)
lemmas fl_upper = fl_bounds(2)

lemma fl_count: "1 \<le> c \<Longrightarrow> c \<le> 4 \<Longrightarrow> fl (real c - 1) = real c - 1"
  by (rule fl_exact_half [of _ "2 * (int c - 1)"]) simp_all

lemma repeat_small:
  assumes "ty \<noteq> Phone" and "2 \<le> c" and "c \<le> 4"
  shows "repeat_penalty ty c = exact_repeat ty c"
proof -
  obtain j :: int where j: "2 * weight_share ty = of_int j" "0 \<le> j" "j \<le> 15"
    and h: "weight_share ty = SCORE_WEIGHTS ty * (3 / 10)"
    using assms(1) by (cases ty) (simp_all add: weight_share_values)
  from j have hb: "0 \<le> weight_share ty" "weight_share ty \<le> 15 / 2" by linarith+
  from assms have c: "fl (real c - 1) = real c - 1" by (intro fl_count) simp_all
  have "fl ((real c - 1) * weight_share ty) = (real c - 1) * weight_share ty"
  proof (rule fl_exact_half [of _ "(int c - 1) * j"])
    show "2 * ((real c - 1) * weight_share ty) = of_int ((int c - 1) * j)"
      using j(1) by (simp add: algebra_simps)
    have "(real c - 1) * weight_share ty \<le> 3 * (15 / 2)"
      using assms hb by (intro mult_mono) simp_all
    moreover have "0 \<le> (real c - 1) * weight_share ty" using assms hb by simp
    ultimately show "\<bar>(real c - 1) * weight_share ty\<bar> < 2 ^ 52" by simp
  qed
  then show ?thesis by (simp add: repeat_penalty_def exact_repeat_def c h)
qed

lemma weight_share_lower: "29 / 100 * SCORE_WEIGHTS ty \<le> weight_share ty"
  by (cases ty) (simp_all add: weight_share_values)

lemma SCORE_WEIGHTS_pos: "0 < SCORE_WEIGHTS ty"
  by (cases ty) simp_all

lemma repeat_large:
  assumes "5 \<le> c"
  shows "repeat_penalty ty c = SCORE_WEIGHTS ty" and "exact_repeat ty c = SCORE_WEIGHTS ty"
proof -
  let ?w = "SCORE_WEIGHTS ty" and ?h = "weight_share ty"
  have w: "0 < ?w" by (rule SCORE_WEIGHTS_pos)
  have h: "29 / 100 * ?w \<le> ?h" by (rule weight_share_lower)
  from assms have c4: "4 \<le> real c - 1" by simp
  have "4 * (99 / 100) \<le> (real c - 1) * (1 - 1 / 2 ^ 53)"
    using c4 by (intro mult_mono) simp_all
  also have "\<dots> \<le> fl (real c - 1)" using c4 by (intro fl_lower) simp
  finally have a: "396 / 100 \<le> fl (real c - 1)" by simp
  have "396 / 100 * (29 / 100 * ?w) \<le> fl (real c - 1) * ?h"
    using a h w by (intro mult_mono) simp_all
  then have y: "114 / 100 * ?w \<le> fl (real c - 1) * ?h" using w by simp
  then have y0: "0 \<le> fl (real c - 1) * ?h" using w by simp
  have "114 / 100 * ?w * (99 / 100) \<le> fl (real c - 1) * ?h * (1 - 1 / 2 ^ 53)"
    using y w
    by (intro mult_mono [of "114 / 100 * ?w" "fl (real c - 1) * ?h" "99 / 100" "1 - 1 / 2 ^ 53"])
      simp_all
  also have "\<dots> \<le> fl (fl (real c - 1) * ?h)" using y0 by (rule fl_lower)
  finally have "?w \<le> fl (fl (real c - 1) * ?h)" using w by simp
  then show "repeat_penalty ty c = ?w" by (simp add: repeat_penalty_def)
  have "4 * (?w * (3 / 10)) \<le> (real c - 1) * (?w * (3 / 10))"
    using c4 w by (intro mult_right_mono) simp_all
  then have "?w \<le> (real c - 1) * (?w * (3 / 10))" using w by simp
  then show "exact_repeat ty c = ?w" by (simp add: exact_repeat_def)
qed


lemma fl_abs_err: "\<bar>x\<bar> \<le> 2000 \<Longrightarrow> \<bar>fl x - x\<bar> \<le> 1 / (4 * 10 ^ 12)"
proof -
  assume x: "\<bar>x\<bar> \<le> 2000"
  have "\<bar>fl x - x\<bar> \<le> \<bar>x\<bar> * (1 / 2 ^ 53)"
    using fl_err [of x] eps_small by (meson abs_ge_zero mult_left_mono order_trans)
  also have "\<dots> \<le> 2000 * (1 / 2 ^ 53)" using x by (intro mult_right_mono) simp_all
  also have "\<dots> \<le> 1 / (4 * 10 ^ 12)" by simp
  finally show ?thesis .
qed

lemma repeat_phone:
  assumes "2 \<le> c" and "c \<le> 4"
  shows "\<bar>repeat_penalty Phone c - exact_repeat Phone c\<bar> \<le> 1 / 10 ^ 12"
proof -
  define d :: real where "d = 5404319552844595 / 2 ^ 51"
  define y where "y = (real c - 1) * d"
  have d: "12 / 5 - 1 / 10 ^ 15 \<le> d" "d \<le> 12 / 5" by (simp_all add: d_def)
  from assms have c: "1 \<le> real c - 1" "real c - 1 \<le> 3" by simp_all
  have y1: "(real c - 1) * (12 / 5 - 1 / 10 ^ 15) \<le> y"
    unfolding y_def using c d by (intro mult_left_mono) simp_all
  have y2: "y \<le> (real c - 1) * (12 / 5)"
    unfolding y_def using c d by (intro mult_left_mono) simp_all
  from y1 c have y3: "(real c - 1) * (12 / 5) - 3 / 10 ^ 15 \<le> y" by (simp add: algebra_simps)
  from y2 c have y4: "y \<le> 36 / 5" by simp
  from c have "12 / 5 \<le> (real c - 1) * (12 / 5)" by simp
  moreover have "(3::real) / 10 ^ 15 \<le> 1" by simp
  ultimately have y0: "0 \<le> y" using y3 by linarith
  with y4 have "\<bar>y\<bar> \<le> 2000" by simp
  from fl_abs_err [OF this] have f: "\<bar>fl y - y\<bar> \<le> 1 / (4 * 10 ^ 12)" .
  have n: "(1::real) / (4 * 10 ^ 12) \<le> 1 / 2" "(1::real) / (4 * 10 ^ 12) + 3 / 10 ^ 15 \<le> 1 / 10 ^ 12"
    by simp_all
  from f n(1) y4 have "fl y \<le> 8" by linarith
  moreover have "fl (real c - 1) = real c - 1" using assms by (intro fl_count) simp_all
  ultimately have r: "repeat_penalty Phone c = fl y"
    by (simp add: repeat_penalty_def weight_share_values y_def d_def)
  from c have "(real c - 1) * (8 * (3 / 10)) \<le> 8" by simp
  then have e: "exact_repeat Phone c = (real c - 1) * (12 / 5)"
    by (simp add: exact_repeat_def)
  from f n(2) y2 y3 show ?thesis unfolding r e by linarith
qed

subsection \<open>The loop body\<close>

lemma half_diff: "half x \<Longrightarrow> half y \<Longrightarrow> half (x - y)"
  unfolding half_def by (simp add: right_diff_distrib)

lemma half_weight: "half (SCORE_WEIGHTS ty)"
  unfolding half_def by (cases ty) simp_all

lemma fl_half: "half x \<Longrightarrow> \<bar>x\<bar> \<le> 2000 \<Longrightarrow> fl x = x"
proof -
  assume "half x" and b: "\<bar>x\<bar> \<le> 2000"
  then obtain k :: int where "2 * x = of_int k" by (auto simp: half_def elim: Ints_cases)
  moreover from b have "\<bar>x\<bar> < 2 ^ 52" by simp
  ultimately show ?thesis by (rule fl_exact_half)
qed


lemma repeat_eq:
  assumes "2 \<le> c" and "ty = Phone \<longrightarrow> 5 \<le> c"
  shows "repeat_penalty ty c = exact_repeat ty c"
proof (cases "5 \<le> c")
  case True
  then show ?thesis by (simp add: repeat_large)
next
  case False
  with assms show ?thesis by (intro repeat_small) auto
qed

lemma exact_repeat_bounds:
  assumes "1 \<le> c"
  shows "0 \<le> exact_repeat ty c" and "exact_repeat ty c \<le> 25"
proof -
  have w: "0 < SCORE_WEIGHTS ty" "SCORE_WEIGHTS ty \<le> 25" by (cases ty; simp)+
  from assms w(1) have "0 \<le> (real c - 1) * (SCORE_WEIGHTS ty * (3 / 10))" by simp
  with w show "0 \<le> exact_repeat ty c" by (simp add: exact_repeat_def)
  have "exact_repeat ty c \<le> SCORE_WEIGHTS ty" by (simp add: exact_repeat_def)
  with w show "exact_repeat ty c \<le> 25" by simp
qed

lemma exact_repeat_half:
  assumes "1 \<le> c" and "ty = Phone \<longrightarrow> 5 \<le> c"
  shows "half (exact_repeat ty c)"
proof (cases "5 \<le> c")
  case True
  then show ?thesis by (simp add: repeat_large half_weight)
next
  case False
  with assms(2) have ty: "ty \<noteq> Phone" by auto
  have "2 * ((real c - 1) * (SCORE_WEIGHTS ty * (3 / 10))) =
      of_int (int c - 1) * (2 * (SCORE_WEIGHTS ty * (3 / 10)))"
    using assms(1) by simp
  moreover have "2 * (SCORE_WEIGHTS ty * (3 / 10)) \<in> \<int>" using ty by (cases ty) simp_all
  ultimately have "half ((real c - 1) * (SCORE_WEIGHTS ty * (3 / 10)))"
    unfolding half_def by (simp only: Ints_mult Ints_of_int)
  with half_weight [of ty] show ?thesis by (simp add: exact_repeat_def min_def)
qed

lemma weight_bounds: "0 < SCORE_WEIGHTS ty" "SCORE_WEIGHTS ty \<le> 25"
  by (cases ty; simp)+

lemma exact_entry_bound: "\<bar>exact_entry counts ty s\<bar> \<le> \<bar>s\<bar> + 50"
proof -
  have "counts ty > 1 \<Longrightarrow> 0 \<le> exact_repeat ty (counts ty) \<and> exact_repeat ty (counts ty) \<le> 25"
    using exact_repeat_bounds [of "counts ty" ty] by simp
  then show ?thesis using weight_bounds [of ty]
    by (auto simp: exact_entry_def Let_def)
qed

lemma step_exact:
  assumes "half s" and "\<bar>s\<bar> \<le> 1000" and "ty = Phone \<longrightarrow> counts ty \<le> 1 \<or> 5 \<le> counts ty"
  shows "score_entry counts ty s = exact_entry counts ty s" and "half (exact_entry counts ty s)"
proof -
  let ?c = "counts ty" and ?w = "SCORE_WEIGHTS ty"
  have w: "0 < ?w" "?w \<le> 25" by (rule weight_bounds)+
  have h1: "half (s - ?w)" using assms(1) half_weight by (rule half_diff)
  from assms(2) w have b1: "\<bar>s - ?w\<bar> \<le> 2000" by simp
  have f1: "fl (s - ?w) = s - ?w" using h1 b1 by (rule fl_half)
  show "score_entry counts ty s = exact_entry counts ty s"
  proof (cases "1 < ?c")
    case True
    with assms(3) have p: "2 \<le> ?c" "ty = Phone \<longrightarrow> 5 \<le> ?c" by auto
    have r: "repeat_penalty ty ?c = exact_repeat ty ?c" using p by (rule repeat_eq)
    from p have "half (exact_repeat ty ?c)" by (intro exact_repeat_half) simp_all
    with h1 have h2: "half (s - ?w - exact_repeat ty ?c)" by (rule half_diff)
    from exact_repeat_bounds [of ?c ty] p(1) assms(2) w
    have b2: "\<bar>s - ?w - exact_repeat ty ?c\<bar> \<le> 2000" by simp
    from fl_half [OF h2 b2] True show ?thesis
      by (simp add: score_entry_def exact_entry_def Let_def f1 r)
  next
    case False
    then show ?thesis by (simp add: score_entry_def exact_entry_def Let_def f1)
  qed
  show "half (exact_entry counts ty s)"
  proof (cases "1 < ?c")
    case True
    with assms(3) have p: "2 \<le> ?c" "ty = Phone \<longrightarrow> 5 \<le> ?c" by auto
    from p have "half (exact_repeat ty ?c)" by (intro exact_repeat_half) simp_all
    with h1 have "half (s - ?w - exact_repeat ty ?c)" by (rule half_diff)
    with True w show ?thesis by (simp add: exact_entry_def Let_def)
  next
    case False
    with h1 assms(1) w show ?thesis by (simp add: exact_entry_def Let_def)
  qed
qed


lemma repeat_close:
  assumes "2 \<le> c"
  shows "\<bar>repeat_penalty ty c - exact_repeat ty c\<bar> \<le> 1 / 10 ^ 12"
proof (cases "ty = Phone \<and> c \<le> 4")
  case True
  then have ty: "ty = Phone" and c4: "c \<le> 4" by simp_all
  show ?thesis unfolding ty by (rule repeat_phone [OF assms c4])
next
  case False
  with assms have "repeat_penalty ty c = exact_repeat ty c" by (intro repeat_eq) auto
  then show ?thesis by simp
qed

lemma step_approx:
  assumes "\<bar>s - s'\<bar> \<le> d" and "\<bar>s'\<bar> \<le> 1000" and "d \<le> 1"
  shows "\<bar>score_entry counts ty s - exact_entry counts ty s'\<bar> \<le> d + 2 / 10 ^ 12"
proof -
  let ?c = "counts ty" and ?w = "SCORE_WEIGHTS ty"
  define q :: real where "q = 1 / (4 * 10 ^ 12)"
  define p :: real where "p = 1 / 10 ^ 12"
  have qp: "0 \<le> q" "q + q + p \<le> 2 * p" "p \<le> 1" "q \<le> 1" by (simp_all add: q_def p_def)
  have w: "0 < ?w" "?w \<le> 25" by (rule weight_bounds)+
  from assms have d0: "0 \<le> d" by linarith
  from assms w have "\<bar>s - ?w\<bar> \<le> 2000" by linarith
  from fl_abs_err [OF this] have f1: "\<bar>fl (s - ?w) - (s - ?w)\<bar> \<le> q" by (simp add: q_def)
  with assms(1) have t: "\<bar>fl (s - ?w) - (s' - ?w)\<bar> \<le> d + q" by linarith
  show ?thesis
  proof (cases "1 < ?c")
    case True
    then have c2: "2 \<le> ?c" by simp
    from repeat_close [OF c2, of ty] have r: "\<bar>repeat_penalty ty ?c - exact_repeat ty ?c\<bar> \<le> p"
      by (simp add: p_def)
    from exact_repeat_bounds [of ?c ty] c2
    have e: "0 \<le> exact_repeat ty ?c" "exact_repeat ty ?c \<le> 25" by simp_all
    from t r e assms(2,3) w qp have "\<bar>fl (s - ?w) - repeat_penalty ty ?c\<bar> \<le> 2000" by linarith
    from fl_abs_err [OF this]
    have f2: "\<bar>fl (fl (s - ?w) - repeat_penalty ty ?c) - (fl (s - ?w) - repeat_penalty ty ?c)\<bar> \<le> q"
      by (simp add: q_def)
    from f2 t r qp
    have "\<bar>fl (fl (s - ?w) - repeat_penalty ty ?c) - (s' - ?w - exact_repeat ty ?c)\<bar> \<le> d + 2 * p"
      by linarith
    with True w show ?thesis by (simp add: score_entry_def exact_entry_def Let_def p_def)
  next
    case False
    from t qp have "\<bar>fl (s - ?w) - (s' - ?w)\<bar> \<le> d + 2 * p" by linarith
    with False w assms(1) d0 show ?thesis
      by (auto simp: score_entry_def exact_entry_def Let_def p_def)
  qed
qed

lemma fold_approx:
  "\<bar>s - s'\<bar> \<le> d \<Longrightarrow> \<bar>s'\<bar> + 50 * real (length tys) \<le> 1000 \<Longrightarrow>
   d + 2 / 10 ^ 12 * real (length tys) \<le> 1 \<Longrightarrow>
   \<bar>fold (score_entry counts) tys s - fold (exact_entry counts) tys s'\<bar>
     \<le> d + 2 / 10 ^ 12 * real (length tys)"
proof (induction tys arbitrary: s s' d)
  case Nil
  then show ?case by simp
next
  case (Cons ty tys)
  define p :: real where "p = 2 / 10 ^ 12"
  have p0: "0 \<le> p" by (simp add: p_def)
  have len: "p * real (length (ty # tys)) = p + p * real (length tys)"
    by (simp add: algebra_simps)
  from Cons.prems(3) have 3: "d + p + p * real (length tys) \<le> 1"
    unfolding p_def [symmetric] len by simp
  from Cons.prems(2) have b: "\<bar>s'\<bar> \<le> 1000" by simp
  from p0 have "0 \<le> p * real (length tys)" by simp
  with 3 p0 have d1: "d \<le> 1" by linarith
  from step_approx [OF Cons.prems(1) b d1, of counts ty]
  have 1: "\<bar>score_entry counts ty s - exact_entry counts ty s'\<bar> \<le> d + p"
    by (simp add: p_def)
  from exact_entry_bound [of counts ty s'] Cons.prems(2)
  have 2: "\<bar>exact_entry counts ty s'\<bar> + 50 * real (length tys) \<le> 1000" by simp
  from Cons.IH [OF 1 2] 3
  have "\<bar>fold (score_entry counts) tys (score_entry counts ty s) -
      fold (exact_entry counts) tys (exact_entry counts ty s')\<bar> \<le> d + p + p * real (length tys)"
    by (simp add: p_def)
  then have "\<bar>fold (score_entry counts) (ty # tys) s - fold (exact_entry counts) (ty # tys) s'\<bar>
      \<le> d + p * real (length (ty # tys))"
    unfolding len by simp
  then show ?case by (simp only: p_def)
qed

lemma fold_exact:
  "half s \<Longrightarrow> \<bar>s\<bar> + 50 * real (length tys) \<le> 1000 \<Longrightarrow>
   counts Phone \<le> 1 \<or> 5 \<le> counts Phone \<Longrightarrow>
   fold (score_entry counts) tys s = fold (exact_entry counts) tys s"
proof (induction tys arbitrary: s)
  case Nil
  show ?case by simp
next
  case (Cons ty tys)
  from Cons.prems have b: "\<bar>s\<bar> \<le> 1000" by simp
  from Cons.prems(3) have p: "ty = Phone \<longrightarrow> counts ty \<le> 1 \<or> 5 \<le> counts ty" by simp
  note st = step_exact [where s = s and ty = ty and counts = counts, OF Cons.prems(1) b p]
  from exact_entry_bound [of counts ty s] Cons.prems(2)
  have 2: "\<bar>exact_entry counts ty s\<bar> + 50 * real (length tys) \<le> 1000" by simp
  from Cons.IH [OF st(2) 2 Cons.prems(3)] st(1) show ?case by simp
qed



subsection \<open>The rounded score\<close>

lemma half_add: "half x \<Longrightarrow> half y \<Longrightarrow> half (x + y)"
  unfolding half_def by (simp add: distrib_left)

lemma half_of_int: "half (of_int n)"
  unfolding half_def by simp

lemma round_stable:
  assumes "half h" and "k = 1 \<or> k = 2 \<or> k = 3" and "\<bar>x - (h - 12 / 5 * real k)\<bar> \<le> 1 / 100"
  shows "Math_round x = Math_round (h - 12 / 5 * real k)"
proof -
  from assms(1) obtain j :: int where j: "2 * h = of_int j"
    by (auto simp: half_def elim: Ints_cases)
  define m where "m = 5 * j - 24 * int k + 5"
  define q where "q = m div 10"
  define r where "r = m mod 10"
  from assms(2) have "r \<noteq> 0" unfolding r_def m_def by presburger
  then have r: "1 \<le> r" "r \<le> 9" unfolding r_def by presburger+
  have m: "m = 10 * q + r" unfolding q_def r_def by simp
  define z where "z = h - 12 / 5 * real k + 1 / 2"
  have "10 * z = 5 * (2 * h) - 24 * real k + 5" unfolding z_def by simp
  also have "\<dots> = of_int m" unfolding j m_def by simp
  finally have "10 * z = 10 * of_int q + of_int r" unfolding m by simp
  then have z: "z = of_int q + of_int r / 10" by simp
  from r have rr: "1 \<le> real_of_int r" "real_of_int r \<le> 9" by simp_all
  from z rr have zb: "of_int q + 1 / 10 \<le> z" "z \<le> of_int q + 9 / 10" by simp_all
  then have fz: "\<lfloor>z\<rfloor> = q" by (intro floor_unique) simp_all
  from assms(3) have "\<bar>(x + 1 / 2) - z\<bar> \<le> 1 / 100" unfolding z_def by simp
  with zb have "of_int q \<le> x + 1 / 2" "x + 1 / 2 < of_int q + 1" by linarith+
  then have "\<lfloor>x + 1 / 2\<rfloor> = q" by (rule floor_unique)
  with fz show ?thesis by (simp add: Math_round_def z_def)
qed

lemma exact_entry_shift: "exact_entry counts ty s = s + exact_entry counts ty 0"
  by (simp add: exact_entry_def Let_def)

lemma fold_exact_entry:
  "fold (exact_entry counts) tys s = s + (\<Sum>ty\<leftarrow>tys. exact_entry counts ty 0)"
proof (induction tys arbitrary: s)
  case Nil
  show ?case by simp
next
  case (Cons ty tys)
  have "fold (exact_entry counts) (ty # tys) s = fold (exact_entry counts) tys (exact_entry counts ty s)"
    by simp
  also have "\<dots> = exact_entry counts ty s + (\<Sum>ty\<leftarrow>tys. exact_entry counts ty 0)"
    by (rule Cons.IH)
  also have "\<dots> = s + (\<Sum>ty\<leftarrow>ty # tys. exact_entry counts ty 0)"
    using exact_entry_shift [of counts ty s] by simp
  finally show ?case .
qed

lemma half_entry: "ty \<noteq> Phone \<Longrightarrow> half (exact_entry counts ty 0)"
  by (rule step_exact(2)) (simp_all add: half_def)

lemma calculatePrivacyScore_exact: "calculatePrivacyScore counts = exact_score counts"
proof (cases "counts Phone \<le> 1 \<or> 5 \<le> counts Phone")
  case True
  have "fold (score_entry counts) PII_TYPES 100 = fold (exact_entry counts) PII_TYPES 100"
    using True by (intro fold_exact) (simp_all add: half_def PII_TYPES_def)
  then show ?thesis by (simp add: calculatePrivacyScore_def exact_score_def)
next
  case False
  define k where "k = counts Phone - 1"
  from False have k: "k = 1 \<or> k = 2 \<or> k = 3" and c: "counts Phone = Suc k" unfolding k_def by auto
  define h where "h = 100 + exact_entry counts Email 0 - 8 + exact_entry counts Ssn 0 +
    exact_entry counts CreditCard 0 + exact_entry counts Address 0 +
    exact_entry counts Password 0 + exact_entry counts ApiKey 0"
  have hh: "half h" unfolding h_def
    using half_of_int [of 100] half_of_int [of 8]
    by (intro half_add half_diff half_entry) simp_all
  from k have "real k * (8 * (3 / 10)) \<le> 8" by auto
  then have "exact_repeat Phone (Suc k) = 12 / 5 * real k" by (simp add: exact_repeat_def)
  with k have p: "exact_entry counts Phone 0 = - 8 - 12 / 5 * real k"
    by (auto simp: exact_entry_def c)
  have "fold (exact_entry counts) PII_TYPES 100 = 100 + (\<Sum>ty\<leftarrow>PII_TYPES. exact_entry counts ty 0)"
    by (rule fold_exact_entry)
  also have "\<dots> = h - 12 / 5 * real k"
    by (simp add: PII_TYPES_def p h_def)
  finally have ex: "fold (exact_entry counts) PII_TYPES 100 = h - 12 / 5 * real k" .
  have "\<bar>fold (score_entry counts) PII_TYPES 100 - fold (exact_entry counts) PII_TYPES 100\<bar>
      \<le> 0 + 2 / 10 ^ 12 * real (length PII_TYPES)"
    by (rule fold_approx) (simp_all add: PII_TYPES_def)
  then have "\<bar>fold (score_entry counts) PII_TYPES 100 - (h - 12 / 5 * real k)\<bar> \<le> 1 / 100"
    unfolding ex by (simp add: PII_TYPES_def)
  from round_stable [OF hh k this] show ?thesis
    by (simp add: calculatePrivacyScore_def exact_score_def ex)
qed

text \<open>
  The exact score is how \<^verbatim>\<open>calculatePrivacyScore\<close> is evaluated.
\<close>

declare calculatePrivacyScore_exact [code]

section \<open>Properties of the privacy score\<close>

text \<open>
  What one entry takes off the score, in closed form: nothing for a count of 0, the
  weight for a count of 1, and beyond that the weight and the capped share for the
  repeats.
\<close>

definition penalty :: "pii_type \<Rightarrow> nat \<Rightarrow> real" where
  "penalty ty c =
     (if c = 0 then 0
      else if c = 1 then SCORE_WEIGHTS ty
      else SCORE_WEIGHTS ty + min ((of_nat c - 1) * (SCORE_WEIGHTS ty * (3 / 10))) (SCORE_WEIGHTS ty))"

lemma exact_entry_penalty: "exact_entry counts ty score = score - penalty ty (counts ty)"
  using SCORE_WEIGHTS_pos [of ty]
  by (simp add: exact_entry_def exact_repeat_def penalty_def Let_def)

lemma fold_exact_penalty:
  "fold (exact_entry counts) tys score = score - (\<Sum>ty\<leftarrow>tys. penalty ty (counts ty))"
proof (induction tys arbitrary: score)
  case Nil
  show ?case by simp
next
  case (Cons ty tys)
  have "fold (exact_entry counts) (ty # tys) score =
      fold (exact_entry counts) tys (exact_entry counts ty score)"
    by simp
  also have "\<dots> = exact_entry counts ty score - (\<Sum>ty\<leftarrow>tys. penalty ty (counts ty))"
    by (rule Cons.IH)
  also have "\<dots> = score - (\<Sum>ty\<leftarrow>ty # tys. penalty ty (counts ty))"
    by (simp only: exact_entry_penalty list.map sum_list.Cons diff_diff_eq)
  finally show ?case .
qed

lemma round_clamp: "max 0 (min 100 (Math_round x)) = round (max 0 (min 100 x))"
proof -
  consider "x < 0" | "0 \<le> x" "x \<le> 100" | "100 < x" by linarith
  then show ?thesis
  proof cases
    case 1
    then have "\<lfloor>x + 1 / 2\<rfloor> \<le> 0" by (simp add: floor_le_iff)
    with 1 show ?thesis by (simp add: Math_round_def)
  next
    case 2
    then have "0 \<le> \<lfloor>x + 1 / 2\<rfloor>" "\<lfloor>x + 1 / 2\<rfloor> \<le> 100"
      by (simp_all add: floor_le_iff le_floor_iff)
    with 2 show ?thesis by (simp add: Math_round_def round_def)
  next
    case 3
    then have "100 \<le> \<lfloor>x + 1 / 2\<rfloor>" by (simp add: le_floor_iff)
    with 3 show ?thesis by (simp add: Math_round_def)
  qed
qed

subsection \<open>The score as the specification words it\<close>

text \<open>
  The algorithm of the specification, from its words: the weight table, the deduction
  for one category (the weight once for a positive count, and for a count above 1 the
  lesser of \<open>(count - 1) * weight * 0.3\<close> and the weight in addition), the sum over the
  seven categories taken from 100, the clamp to \<open>[0, 100]\<close> and then the rounding to the
  nearest integer.
\<close>

fun spec_weight :: "pii_type \<Rightarrow> real" where
  "spec_weight Password = 25"
| "spec_weight Ssn = 20"
| "spec_weight CreditCard = 20"
| "spec_weight ApiKey = 15"
| "spec_weight Address = 10"
| "spec_weight Email = 10"
| "spec_weight Phone = 8"

definition spec_deduction :: "pii_type \<Rightarrow> nat \<Rightarrow> real" where
  "spec_deduction ty count =
     (if count > 0 then spec_weight ty else 0) +
     (if count > 1 then min ((of_nat count - 1) * spec_weight ty * (3 / 10)) (spec_weight ty) else 0)"

definition spec_score :: "(pii_type \<Rightarrow> nat) \<Rightarrow> int" where
  "spec_score counts =
     round (max 0 (min 100
       (100 - (spec_deduction Email (counts Email) + spec_deduction Phone (counts Phone) +
               spec_deduction Ssn (counts Ssn) + spec_deduction CreditCard (counts CreditCard) +
               spec_deduction Address (counts Address) + spec_deduction Password (counts Password) +
               spec_deduction ApiKey (counts ApiKey)))))"

lemma spec_deduction_penalty: "spec_deduction ty c = penalty ty c"
proof -
  have "spec_weight ty = SCORE_WEIGHTS ty" by (cases ty) simp_all
  then show ?thesis by (simp add: spec_deduction_def penalty_def mult.assoc)
qed

text \<open>
  Claim C1. For every mapping of the seven categories to counts, the score the code
  computes in double precision is the score of the specification's algorithm in exact
  arithmetic; all counts zero give 100, one password gives 75 and two social security
  numbers give 74.
\<close>

theorem calculatePrivacyScore_spec:
  "calculatePrivacyScore counts = spec_score counts \<and>
   calculatePrivacyScore (\<lambda>_. 0) = 100 \<and>
   calculatePrivacyScore ((\<lambda>_. 0)(Password := 1)) = 75 \<and>
   calculatePrivacyScore ((\<lambda>_. 0)(Ssn := 2)) = 74"
proof (intro conjI)
  have "(\<Sum>ty\<leftarrow>PII_TYPES. penalty ty (counts ty)) =
      penalty Email (counts Email) + penalty Phone (counts Phone) + penalty Ssn (counts Ssn) +
      penalty CreditCard (counts CreditCard) + penalty Address (counts Address) +
      penalty Password (counts Password) + penalty ApiKey (counts ApiKey)"
    by (simp add: PII_TYPES_def)
  then show "calculatePrivacyScore counts = spec_score counts"
    by (simp only: calculatePrivacyScore_exact exact_score_def spec_score_def
        fold_exact_penalty round_clamp spec_deduction_penalty)
  show "calculatePrivacyScore (\<lambda>_. 0) = 100"
    by (simp add: calculatePrivacyScore_exact exact_score_def PII_TYPES_def exact_entry_def
        exact_repeat_def Math_round_def)
  show "calculatePrivacyScore ((\<lambda>_. 0)(Password := 1)) = 75"
    by (simp add: calculatePrivacyScore_exact exact_score_def PII_TYPES_def exact_entry_def
        exact_repeat_def Math_round_def)
  show "calculatePrivacyScore ((\<lambda>_. 0)(Ssn := 2)) = 74"
    by (simp add: calculatePrivacyScore_exact exact_score_def PII_TYPES_def exact_entry_def
        exact_repeat_def Math_round_def)
qed

lemma penalty_mono: "c \<le> c' \<Longrightarrow> penalty ty c \<le> penalty ty c'"
proof -
  assume le: "c \<le> c'"
  have w: "0 < SCORE_WEIGHTS ty" by (rule SCORE_WEIGHTS_pos)
  have m: "0 \<le> min ((real k - 1) * (SCORE_WEIGHTS ty * (3 / 10))) (SCORE_WEIGHTS ty)"
    if "1 \<le> k" for k
    using w that by simp
  consider "c = 0" | "c = 1" "c' = 1" | "c = 1" "2 \<le> c'" | "2 \<le> c" using le by linarith
  then show ?thesis
  proof cases
    case 1
    then show ?thesis using w m [of c'] by (simp add: penalty_def)
  next
    case 2
    then show ?thesis by simp
  next
    case 3
    then show ?thesis using m [of c'] by (simp add: penalty_def)
  next
    case 4
    with le have "(real c - 1) * (SCORE_WEIGHTS ty * (3 / 10))
        \<le> (real c' - 1) * (SCORE_WEIGHTS ty * (3 / 10))"
      using w by (intro mult_right_mono) simp_all
    then have "min ((real c - 1) * (SCORE_WEIGHTS ty * (3 / 10))) (SCORE_WEIGHTS ty)
        \<le> min ((real c' - 1) * (SCORE_WEIGHTS ty * (3 / 10))) (SCORE_WEIGHTS ty)"
      by (rule min.mono) simp
    with 4 le show ?thesis by (simp add: penalty_def)
  qed
qed

lemma Math_round_mono: "x \<le> y \<Longrightarrow> Math_round x \<le> Math_round y"
  by (simp add: Math_round_def floor_mono)

text \<open>
  Claim C6. Raising the count of one category, the others fixed, never raises the
  score, and the score is an integer between 0 and 100.
\<close>

theorem calculatePrivacyScore_mono_bounded:
  "(counts ty \<le> n \<longrightarrow>
      calculatePrivacyScore (counts(ty := n)) \<le> calculatePrivacyScore counts) \<and>
   0 \<le> calculatePrivacyScore counts \<and> calculatePrivacyScore counts \<le> 100"
proof (intro conjI impI)
  assume le: "counts ty \<le> n"
  have "(\<Sum>t\<leftarrow>PII_TYPES. penalty t (counts t))
      \<le> (\<Sum>t\<leftarrow>PII_TYPES. penalty t ((counts(ty := n)) t))"
    using le by (intro sum_list_mono penalty_mono) simp
  then have "fold (exact_entry (counts(ty := n))) PII_TYPES 100
      \<le> fold (exact_entry counts) PII_TYPES 100"
    by (simp only: fold_exact_penalty)
  then have "Math_round (fold (exact_entry (counts(ty := n))) PII_TYPES 100)
      \<le> Math_round (fold (exact_entry counts) PII_TYPES 100)"
    by (rule Math_round_mono)
  then show "calculatePrivacyScore (counts(ty := n)) \<le> calculatePrivacyScore counts"
    unfolding calculatePrivacyScore_exact exact_score_def by linarith
next
  show "0 \<le> calculatePrivacyScore counts" by (simp add: calculatePrivacyScore_def)
  show "calculatePrivacyScore counts \<le> 100" by (simp add: calculatePrivacyScore_def)
qed

theorem calculatePrivacyScore_mono_bounded_witness:
  "((\<lambda>_. 0)(Ssn := 1)) Ssn \<le> (2::nat) \<and>
   calculatePrivacyScore (((\<lambda>_. 0)(Ssn := 1))(Ssn := 2))
     \<le> calculatePrivacyScore ((\<lambda>_. 0)(Ssn := 1)) \<and>
   calculatePrivacyScore (((\<lambda>_. 0)(Ssn := 1))(Ssn := 2)) = 74 \<and>
   calculatePrivacyScore ((\<lambda>_. 0)(Ssn := 1)) = 80"
proof -
  have h: "((\<lambda>_. 0)(Ssn := 1)) Ssn \<le> (2::nat)" by simp
  have a: "calculatePrivacyScore (((\<lambda>_. 0)(Ssn := 1))(Ssn := 2)) = 74"
    by (simp add: calculatePrivacyScore_exact exact_score_def PII_TYPES_def exact_entry_def
        exact_repeat_def Math_round_def)
  have b: "calculatePrivacyScore ((\<lambda>_. 0)(Ssn := 1)) = 80"
    by (simp add: calculatePrivacyScore_exact exact_score_def PII_TYPES_def exact_entry_def
        exact_repeat_def Math_round_def)
  from calculatePrivacyScore_mono_bounded [of "(\<lambda>_. 0)(Ssn := 1)" Ssn 2] h a b
  show ?thesis by blast
qed

section \<open>Properties of the detector\<close>

lemma minlen_patterns: "(ty, r) \<in> set patterns \<Longrightarrow> 0 < minlen r"
  by (auto simp: patterns_def email_pattern_def phone_pattern_def ssn_pattern_def
      credit_card_pattern_def api_key_pattern_def)

text \<open>
  Claim C7. Every finding of the pattern fallback carries as its value exactly the code
  units of the text from its start up to its end, with
  \<open>0 \<le> start < end \<le> length text\<close> and \<open>end = start + length value\<close>.
\<close>

theorem regexFallback_exact:
  assumes "f \<in> set (regexFallback text)"
  shows "f_value f = substring text (f_start f) (f_end f) \<and>
         0 \<le> f_start f \<and> f_start f < f_end f \<and> f_end f \<le> length text \<and>
         f_end f = f_start f + length (f_value f)"
proof -
  from assms obtain ty r s e where p: "(ty, r) \<in> set patterns"
    and m: "(s, e) \<in> set (matchAll r text)" and f: "f = match_finding ty text (s, e)"
    by (auto simp: regexFallback_def)
  from m have b: "s \<le> e" "e \<le> length text" "s + minlen r \<le> e"
    using matchAll_from_bounds [of s e r "text" 0] by (simp_all add: matchAll_def)
  from minlen_patterns [OF p] b have lt: "s < e" by simp
  from b have len: "length (substring text s e) = e - s" by (simp add: substring_def)
  from f len b lt show ?thesis by (simp add: match_finding_def Let_def)
qed

theorem regexFallback_exact_witness:
  "\<lparr>f_type = Email, f_value = js ''a.b@example.com'', f_start = 3, f_end = 18\<rparr>
     \<in> set (regexFallback (js ''to a.b@example.com'')) \<and>
   js ''a.b@example.com'' = substring (js ''to a.b@example.com'') 3 18 \<and>
   (0::nat) \<le> 3 \<and> (3::nat) < 18 \<and> 18 \<le> length (js ''to a.b@example.com'') \<and>
   (18::nat) = 3 + length (js ''a.b@example.com'')"
proof -
  have h: "\<lparr>f_type = Email, f_value = js ''a.b@example.com'', f_start = 3, f_end = 18\<rparr>
     \<in> set (regexFallback (js ''to a.b@example.com''))"
    by code_simp
  from regexFallback_exact [OF h] h show ?thesis by (simp add: js_def substring_def)
qed

subsection \<open>Sample detectors and hosts\<close>

definition model_backed :: pii_detector where
  "model_backed = \<lparr>session = Some 0, useRegexFallback = False, detectorInitialized = True\<rparr>"

definition fallback_only :: pii_detector where
  "fallback_only = \<lparr>session = None, useRegexFallback = True, detectorInitialized = True\<rparr>"

text \<open>A host that can give session 0 and answers every prompt with the same outcome.\<close>

definition host :: "prompt_outcome \<Rightarrow> env" where
  "host outcome = \<lparr>acquire = Acquired 0, prompt = (\<lambda>s t. outcome)\<rparr>"

lemma sample_not_blank: "\<not> falsy_or_blank (Some (js ''a@b.cd''))"
  by code_simp

lemma sample_fallback:
  "regexFallback (js ''a@b.cd'') =
     [\<lparr>f_type = Email, f_value = js ''a@b.cd'', f_start = 0, f_end = 6\<rparr>]"
  by code_simp

subsection \<open>Blank input\<close>

lemma trim_blank: "\<forall>u\<in>set t. is_space u \<Longrightarrow> trim t = []"
proof -
  assume "\<forall>u\<in>set t. is_space u"
  then have a: "dropWhile is_space t = []" by (induction t) simp_all
  show ?thesis unfolding trim_def a by simp
qed

text \<open>
  Claim C10. For a text that is \<^verbatim>\<open>null\<close> or \<^verbatim>\<open>undefined\<close>, empty, or made of white
  space only, \<^verbatim>\<open>detectPII\<close> returns the empty list with neither a prompt nor a run of
  the pattern fallback, in model-backed and in fallback mode alike: the only call it
  can make is the initialisation of a detector not yet initialised.
\<close>

theorem detectPII_blank:
  assumes "case text of None \<Rightarrow> True | Some t \<Rightarrow> \<forall>u\<in>set t. is_space u"
  shows "detectPII e d text =
           (if detectorInitialized d then (d, [], []) else (init (acquire e) d, [CallInit], []))"
proof -
  from assms have "falsy_or_blank text"
    by (auto simp: falsy_or_blank_def trim_blank split: option.splits)
  then have "detect_begin d' text = ([], Done [])" for d'
    by (simp add: detect_begin_def)
  then show ?thesis by (simp add: detectPII_def)
qed

theorem detectPII_blank_witness:
  "(case Some (js '' '') of None \<Rightarrow> True | Some t \<Rightarrow> \<forall>u\<in>set t. is_space u) \<and>
   detectPII (host Unparsable) model_backed (Some (js '' '')) = (model_backed, [], []) \<and>
   detectPII (host Unparsable) fallback_only None = (fallback_only, [], []) \<and>
   detectPII (host Unparsable) new_detector (Some []) = (model_backed, [CallInit], [])"
proof -
  have h1: "case Some (js '' '') of None \<Rightarrow> True | Some t \<Rightarrow> \<forall>u\<in>set t. is_space u"
    by (simp add: js_def is_space_def)
  have h2: "case None :: jsstring option of None \<Rightarrow> True | Some t \<Rightarrow> \<forall>u\<in>set t. is_space u"
    by simp
  have h3: "case Some [] of None \<Rightarrow> True | Some t \<Rightarrow> \<forall>u\<in>set t. is_space u"
    by simp
  from detectPII_blank [OF h1, of "host Unparsable" model_backed]
    detectPII_blank [OF h2, of "host Unparsable" fallback_only]
    detectPII_blank [OF h3, of "host Unparsable" new_detector] h1
  show ?thesis
    by (simp add: model_backed_def fallback_only_def new_detector_def host_def init_def)
qed

subsection \<open>A prompt that fails\<close>

text \<open>
  Claim C2, as stated, fails: a model-backed detector whose prompt resolves to a text
  that is not JSON does not return the empty list for \<^verbatim>\<open>a@b.cd\<close>.
\<close>

theorem detectPII_failure_counterexample:
  "snd (snd (detectPII (host Unparsable) model_backed (Some (js ''a@b.cd'')))) \<noteq> []"
  using sample_not_blank
  by (simp add: detectPII_def detect_begin_def detect_resume_def host_def model_backed_def
      sample_fallback Let_def)

text \<open>
  Claim C2, amended. In model-backed mode, when the prompt is rejected or its result
  does not parse as JSON (or parses to \<^verbatim>\<open>null\<close>), \<^verbatim>\<open>detectPII\<close> returns the findings
  of the pattern fallback on that text, which may be none; only a parsed result whose
  \<^verbatim>\<open>pii_found\<close> is not an array gives the empty list. Either way the detector is left
  as it was, so later calls behave as before.
\<close>

theorem detectPII_failure_falls_back:
  assumes "detectorInitialized d" and "session d = Some s" and "\<not> useRegexFallback d"
    and "\<not> falsy_or_blank (Some t)"
  shows "(prompt e s (prompt_text t) \<in> {PromptRejected, Unparsable, ParsedNull} \<longrightarrow>
            detectPII e d (Some t) =
              (d, [CallPrompt s (prompt_text t), CallRegexFallback t], regexFallback t)) \<and>
         (prompt e s (prompt_text t) = ParsedNoArray \<longrightarrow>
            detectPII e d (Some t) = (d, [CallPrompt s (prompt_text t)], []))"
  using assms by (auto simp: detectPII_def detect_begin_def detect_resume_def)

theorem detectPII_failure_falls_back_witness:
  "detectorInitialized model_backed \<and> session model_backed = Some 0 \<and>
   \<not> useRegexFallback model_backed \<and> \<not> falsy_or_blank (Some (js ''a@b.cd'')) \<and>
   prompt (host Unparsable) 0 (prompt_text (js ''a@b.cd'')) \<in> {PromptRejected, Unparsable, ParsedNull} \<and>
   detectPII (host Unparsable) model_backed (Some (js ''a@b.cd'')) =
     (model_backed,
      [CallPrompt 0 (prompt_text (js ''a@b.cd'')), CallRegexFallback (js ''a@b.cd'')],
      [\<lparr>f_type = Email, f_value = js ''a@b.cd'', f_start = 0, f_end = 6\<rparr>]) \<and>
   prompt (host ParsedNoArray) 0 (prompt_text (js ''a@b.cd'')) = ParsedNoArray \<and>
   detectPII (host ParsedNoArray) model_backed (Some (js ''a@b.cd'')) =
     (model_backed, [CallPrompt 0 (prompt_text (js ''a@b.cd''))], [])"
proof -
  have h1: "detectorInitialized model_backed" and h2: "session model_backed = Some 0"
    and h3: "\<not> useRegexFallback model_backed"
    by (simp_all add: model_backed_def)
  have p1: "prompt (host Unparsable) 0 (prompt_text (js ''a@b.cd''))
      \<in> {PromptRejected, Unparsable, ParsedNull}"
    by (simp add: host_def)
  have p2: "prompt (host ParsedNoArray) 0 (prompt_text (js ''a@b.cd'')) = ParsedNoArray"
    by (simp add: host_def)
  have a: "detectPII (host Unparsable) model_backed (Some (js ''a@b.cd'')) =
     (model_backed,
      [CallPrompt 0 (prompt_text (js ''a@b.cd'')), CallRegexFallback (js ''a@b.cd'')],
      regexFallback (js ''a@b.cd''))"
    using detectPII_failure_falls_back [OF h1 h2 h3 sample_not_blank, of "host Unparsable"] p1
    by blast
  have b: "detectPII (host ParsedNoArray) model_backed (Some (js ''a@b.cd'')) =
     (model_backed, [CallPrompt 0 (prompt_text (js ''a@b.cd''))], [])"
    using detectPII_failure_falls_back [OF h1 h2 h3 sample_not_blank, of "host ParsedNoArray"] p2
    by blast
  from a have a': "detectPII (host Unparsable) model_backed (Some (js ''a@b.cd'')) =
     (model_backed,
      [CallPrompt 0 (prompt_text (js ''a@b.cd'')), CallRegexFallback (js ''a@b.cd'')],
      [\<lparr>f_type = Email, f_value = js ''a@b.cd'', f_start = 0, f_end = 6\<rparr>])"
    by (simp only: sample_fallback)
  from h1 h2 h3 sample_not_blank p1 a' p2 b show ?thesis by (intro conjI)
qed

section \<open>Properties of masking\<close>

text \<open>The value \<open>v\<close> stands in the text at position \<open>i\<close>.\<close>

definition occurs_at :: "jsstring \<Rightarrow> jsstring \<Rightarrow> nat \<Rightarrow> bool" where
  "occurs_at text v i \<longleftrightarrow> take (length v) (drop i text) = v"

lemma indexOf_from_None: "indexOf_from s v k = None \<longleftrightarrow> (\<forall>i. \<not> occurs_at s v i)"
proof (induction s arbitrary: k)
  case Nil
  show ?case by (auto simp: occurs_at_def)
next
  case (Cons c s)
  have shift: "occurs_at (c # s) v (Suc i) = occurs_at s v i" for i
    by (simp add: occurs_at_def)
  show ?case
  proof (cases "take (length v) (c # s) = v")
    case True
    then have "occurs_at (c # s) v 0" by (simp add: occurs_at_def)
    with True show ?thesis by auto
  next
    case False
    then have n0: "\<not> occurs_at (c # s) v 0" by (simp add: occurs_at_def)
    have "(\<forall>i. \<not> occurs_at (c # s) v i) \<longleftrightarrow> (\<forall>i. \<not> occurs_at s v i)"
    proof
      assume "\<forall>i. \<not> occurs_at (c # s) v i"
      then show "\<forall>i. \<not> occurs_at s v i" using shift by blast
    next
      assume a: "\<forall>i. \<not> occurs_at s v i"
      show "\<forall>i. \<not> occurs_at (c # s) v i"
      proof
        fix i show "\<not> occurs_at (c # s) v i"
          using n0 a shift by (cases i) simp_all
      qed
    qed
    with False Cons.IH [of "Suc k"] show ?thesis by simp
  qed
qed

lemma indexOf_from_Some:
  "indexOf_from s v k = Some r \<Longrightarrow>
     k \<le> r \<and> occurs_at s v (r - k) \<and> (\<forall>j<r - k. \<not> occurs_at s v j) \<and> r - k + length v \<le> length s"
proof (induction s arbitrary: k)
  case Nil
  then show ?case by (simp add: occurs_at_def split: if_splits)
next
  case (Cons c s)
  have shift: "occurs_at (c # s) v (Suc i) = occurs_at s v i" for i
    by (simp add: occurs_at_def)
  show ?case
  proof (cases "take (length v) (c # s) = v")
    case True
    with Cons.prems have "r = k" by simp
    moreover have "length v \<le> length (c # s)"
    proof -
      from True have "length v = length (take (length v) (c # s))" by simp
      also have "\<dots> \<le> length (c # s)" by (simp only: length_take min.cobounded2)
      finally show ?thesis .
    qed
    ultimately show ?thesis using True by (simp add: occurs_at_def)
  next
    case False
    then have n0: "\<not> occurs_at (c # s) v 0" by (simp add: occurs_at_def)
    from False Cons.prems have "indexOf_from s v (Suc k) = Some r" by simp
    from Cons.IH [OF this] have ih: "Suc k \<le> r" "occurs_at s v (r - Suc k)"
      "\<forall>j<r - Suc k. \<not> occurs_at s v j" "r - Suc k + length v \<le> length s" by blast+
    from ih(1) have rk: "r - k = Suc (r - Suc k)" by simp
    have "\<forall>j<r - k. \<not> occurs_at (c # s) v j"
    proof (intro allI impI)
      fix j assume "j < r - k"
      then show "\<not> occurs_at (c # s) v j"
        using n0 ih(3) shift rk by (cases j) simp_all
    qed
    with ih rk shift show ?thesis by simp
  qed
qed

text \<open>
  The first occurrence of a value is what \<^verbatim>\<open>indexOf\<close> returns; the loop over the client
  rectangles adds an overlay for each rectangle of positive width and height, in order,
  and the overlays it adds are new elements at the end of the body.
\<close>

lemma first_occurrence_indexOf:
  assumes "occurs_at t v s" and "\<forall>j<s. \<not> occurs_at t v j"
  shows "indexOf t v = Some s" and "s + length v \<le> length t"
proof -
  from assms(1) have "indexOf_from t v 0 \<noteq> None"
    using indexOf_from_None [of t v 0] by blast
  then obtain r where r: "indexOf_from t v 0 = Some r" by auto
  from indexOf_from_Some [OF r]
  have f: "occurs_at t v r" "\<forall>j<r. \<not> occurs_at t v j" "r + length v \<le> length t"
    by simp_all
  have "r = s"
  proof (rule ccontr)
    assume "r \<noteq> s"
    then consider "r < s" | "s < r" by linarith
    then show False
    proof cases
      case 1
      with assms(2) f(1) show False by blast
    next
      case 2
      with f(2) assms(1) show False by blast
    qed
  qed
  with r f(3) show "indexOf t v = Some s" and "s + length v \<le> length t"
    by (simp_all add: indexOf_def)
qed

lemma fold_if_filter:
  "fold (\<lambda>x st. if P x then f x st else st) xs st = fold f (filter P xs) st"
  by (induction xs arbitrary: st) simp_all

lemma mask_finding_absent:
  assumes "\<forall>i. \<not> occurs_at t (f_value pii) i"
  shows "mask_finding pg element t pii st = st"
proof -
  from assms have "indexOf t (f_value pii) = None"
    using indexOf_from_None [of t "f_value pii" 0] by (simp add: indexOf_def)
  then show ?thesis by (simp add: mask_finding_def mask_range_def)
qed

lemma mask_finding_first:
  assumes "occurs_at t (f_value pii) s" and "\<forall>j<s. \<not> occurs_at t (f_value pii) j"
  shows "mask_finding pg element t pii st =
    fold (\<lambda>rect st. addOverlay st element rect (f_type pii))
      (filter (\<lambda>rect. r_width rect > 0 \<and> r_height rect > 0)
         (getClientRects pg element s (s + length (f_value pii)))) st"
proof -
  from first_occurrence_indexOf(1) [OF assms] have "indexOf t (f_value pii) = Some s" .
  then have "mask_finding pg element t pii st =
      fold (\<lambda>rect st. if r_width rect > 0 \<and> r_height rect > 0
                       then addOverlay st element rect (f_type pii) else st)
        (getClientRects pg element s (s + length (f_value pii))) st"
    by (simp add: mask_finding_def mask_range_def)
  also have "\<dots> = fold (\<lambda>rect st. addOverlay st element rect (f_type pii))
      (filter (\<lambda>rect. r_width rect > 0 \<and> r_height rect > 0)
         (getClientRects pg element s (s + length (f_value pii)))) st"
    by (rule fold_if_filter)
  finally show ?thesis .
qed

lemma mask_finding_offsets:
  "mask_finding pg element t (p\<lparr>f_start := a, f_end := b\<rparr>) = mask_finding pg element t p"
  by (rule ext) (simp add: mask_finding_def mask_range_def split: option.splits cong: if_cong)


text \<open>
  The client rectangles of a range of the text of a node that get an overlay: those of
  positive width and height.
\<close>

definition visible_rects :: "page \<Rightarrow> node \<Rightarrow> nat \<Rightarrow> nat \<Rightarrow> rect list" where
  "visible_rects pg element s e =
     filter (\<lambda>rect. r_width rect > 0 \<and> r_height rect > 0) (getClientRects pg element s e)"

lemma fold_addOverlay_created:
  "created (fold (\<lambda>rect st. addOverlay st element rect ty) rs st) = created st + length rs"
proof (induction rs arbitrary: st)
  case Nil
  show ?case by simp
next
  case (Cons r rs)
  have "created (fold (\<lambda>rect st. addOverlay st element rect ty) (r # rs) st) =
      created (fold (\<lambda>rect st. addOverlay st element rect ty) rs (addOverlay st element r ty))"
    by simp
  also have "\<dots> = created (addOverlay st element r ty) + length rs" by (rule Cons.IH)
  also have "\<dots> = created st + length (r # rs)" by (simp add: addOverlay_def Let_def)
  finally show ?case .
qed

lemma fold_addOverlay_body:
  "body (fold (\<lambda>rect st. addOverlay st element rect ty) rs st) =
     body st @ [created st..<created st + length rs]"
proof (induction rs arbitrary: st)
  case Nil
  show ?case by simp
next
  case (Cons r rs)
  have "body (fold (\<lambda>rect st. addOverlay st element rect ty) (r # rs) st) =
      body (fold (\<lambda>rect st. addOverlay st element rect ty) rs (addOverlay st element r ty))"
    by simp
  also have "\<dots> = body (addOverlay st element r ty) @
      [created (addOverlay st element r ty)..<created (addOverlay st element r ty) + length rs]"
    by (rule Cons.IH)
  also have "\<dots> = (body st @ [created st]) @ [Suc (created st)..<Suc (created st) + length rs]"
    by (simp add: addOverlay_def Let_def)
  also have "\<dots> = body st @ [created st..<created st + length (r # rs)]"
    using upt_conv_Cons [of "created st" "created st + length (r # rs)"] by simp
  finally show ?case .
qed

lemma fold_addOverlay_old:
  "n < created st \<Longrightarrow>
     elements (fold (\<lambda>rect st. addOverlay st element rect ty) rs st) n = elements st n"
proof (induction rs arbitrary: st)
  case Nil
  show ?case by simp
next
  case (Cons r rs)
  let ?st1 = "addOverlay st element r ty"
  have c: "created ?st1 = Suc (created st)" by (simp add: addOverlay_def Let_def)
  have e: "elements ?st1 = (elements st)(created st \<mapsto> createOverlay r ty)"
    by (simp add: addOverlay_def Let_def)
  from Cons.prems have "n < created ?st1" unfolding c by simp
  then have "elements (fold (\<lambda>rect st. addOverlay st element rect ty) rs ?st1) n = elements ?st1 n"
    by (rule Cons.IH)
  also have "\<dots> = elements st n" using Cons.prems unfolding e by simp
  finally show ?case by simp
qed

lemma fold_addOverlay_new:
  "k < length rs \<Longrightarrow>
     elements (fold (\<lambda>rect st. addOverlay st element rect ty) rs st) (created st + k) =
       Some (createOverlay (rs ! k) ty)"
proof (induction rs arbitrary: st k)
  case Nil
  then show ?case by simp
next
  case (Cons r rs)
  let ?st1 = "addOverlay st element r ty"
  have c: "created ?st1 = Suc (created st)" by (simp add: addOverlay_def Let_def)
  have e: "elements ?st1 = (elements st)(created st \<mapsto> createOverlay r ty)"
    by (simp add: addOverlay_def Let_def)
  have f: "fold (\<lambda>rect st. addOverlay st element rect ty) (r # rs) st =
      fold (\<lambda>rect st. addOverlay st element rect ty) rs ?st1"
    by simp
  show ?case
  proof (cases k)
    case 0
    have "created st < created ?st1" unfolding c by simp
    then have "elements (fold (\<lambda>rect st. addOverlay st element rect ty) rs ?st1) (created st) =
        elements ?st1 (created st)"
      by (rule fold_addOverlay_old)
    then show ?thesis unfolding f 0 e by simp
  next
    case (Suc j)
    with Cons.prems have "j < length rs" by simp
    then have "elements (fold (\<lambda>rect st. addOverlay st element rect ty) rs ?st1) (created ?st1 + j) =
        Some (createOverlay (rs ! j) ty)"
      by (rule Cons.IH)
    then show ?thesis unfolding f Suc c by simp
  qed
qed

subsection \<open>The range to mask, as the specification words it\<close>

text \<open>
  From the words of the specification: the value is looked up in the current text; when
  it occurs exactly once that occurrence is the range; a value that cannot be located at
  all is skipped; otherwise the recorded offsets of the finding are the range.
\<close>

definition occurrences :: "jsstring \<Rightarrow> jsstring \<Rightarrow> nat list" where
  "occurrences text v = filter (occurs_at text v) [0..<Suc (length text)]"

definition spec_mask_range :: "jsstring \<Rightarrow> finding \<Rightarrow> (nat \<times> nat) option" where
  "spec_mask_range text pii =
     (case occurrences text (f_value pii) of
        [] \<Rightarrow> None
      | [i] \<Rightarrow> Some (i, i + length (f_value pii))
      | _ \<Rightarrow> Some (f_start pii, f_end pii))"

text \<open>
  The second of two equal addresses in one text node, as the pattern fallback reports
  it for that text.
\<close>

definition second_email :: finding where
  "second_email = \<lparr>f_type = Email, f_value = js ''a@b.cd'', f_start = 7, f_end = 13\<rparr>"

lemma second_email_found: "second_email \<in> set (regexFallback (js ''a@b.cd a@b.cd''))"
  by code_simp

text \<open>
  A text node with that text, on a page whose client rectangle for a range of the text
  runs from the start of the range to its end, and a finding whose value is not in the
  text.
\<close>

definition emails_page :: page where
  "emails_page =
     \<lparr>walk = [0],
      parentElement = (\<lambda>n. Some \<lparr>tag = ''p'', is_overlay = False\<rparr>),
      textContent = (\<lambda>n. js ''a@b.cd a@b.cd''),
      parent_in_document = (\<lambda>n. True),
      getClientRects =
        (\<lambda>n s e. [\<lparr>r_left = real s, r_top = 0, r_width = real e - real s, r_height = 16\<rparr>]),
      getBoundingClientRect = (\<lambda>n. None)\<rparr>"

definition absent_email :: finding where
  "absent_email = \<lparr>f_type = Email, f_value = js ''x@y.zz'', f_start = 7, f_end = 13\<rparr>"

text \<open>
  Claim C5, as stated, fails: the value of this finding occurs twice, so the claim has
  the recorded offsets 7 and 13 masked; the code masks the range from 0 to 6, and the
  one overlay \<^verbatim>\<open>maskElement\<close> adds lies over that range.
\<close>

theorem mask_range_counterexample:
  "spec_mask_range (textContent emails_page 0) second_email = Some (7, 13) \<and>
   mask_range (textContent emails_page 0) second_email = Some (0, 6) \<and>
   body (maskElement emails_page initial_state 0 [second_email]) = [0] \<and>
   map_option style (elements (maskElement emails_page initial_state 0 [second_email]) 0) =
     Some \<lparr>r_left = 0, r_top = 0, r_width = 6, r_height = 16\<rparr>"
  by code_simp

text \<open>
  Claim C5, amended. For every finding, \<^verbatim>\<open>maskElement\<close> masks the first occurrence of the
  finding's value in the current text of the node, over the length of the value: a
  finding whose value does not occur in the text is skipped, the state as it was; for a
  finding whose value occurs first at \<open>s\<close>, the range from \<open>s\<close> over the length of the
  value lies in the text, \<^verbatim>\<open>addOverlay\<close> is called for each client rectangle of positive
  width and height of that range before the next finding is taken, and masking that
  one finding appends one new overlay for each of those rectangles to the body, with the
  rectangle as its style and the type of the finding, and leaves the elements there
  were as they are. The recorded start and end offsets are never used.
\<close>

theorem maskElement_first_occurrence:
  "maskElement pg st element [] = st \<and>
   ((\<forall>i. \<not> occurs_at (textContent pg element) (f_value pii) i) \<longrightarrow>
      maskElement pg st element (pii # piiItems) = maskElement pg st element piiItems) \<and>
   (occurs_at (textContent pg element) (f_value pii) s \<and>
    (\<forall>j<s. \<not> occurs_at (textContent pg element) (f_value pii) j) \<longrightarrow>
      s + length (f_value pii) \<le> length (textContent pg element) \<and>
      maskElement pg st element (pii # piiItems) =
        maskElement pg
          (fold (\<lambda>rect st. addOverlay st element rect (f_type pii))
             (visible_rects pg element s (s + length (f_value pii))) st)
          element piiItems \<and>
      body (maskElement pg st element [pii]) =
        body st @ [created st..<
          created st + length (visible_rects pg element s (s + length (f_value pii)))] \<and>
      (\<forall>k<length (visible_rects pg element s (s + length (f_value pii))).
         elements (maskElement pg st element [pii]) (created st + k) =
           Some (createOverlay
                   (visible_rects pg element s (s + length (f_value pii)) ! k) (f_type pii))) \<and>
      (\<forall>n<created st. elements (maskElement pg st element [pii]) n = elements st n)) \<and>
   maskElement pg st element (map (\<lambda>pii. pii\<lparr>f_start := a, f_end := b\<rparr>) piiItems) =
     maskElement pg st element piiItems"
proof -
  let ?t = "textContent pg element"
  let ?rs = "visible_rects pg element s (s + length (f_value pii))"
  let ?st1 = "fold (\<lambda>rect st. addOverlay st element rect (f_type pii)) ?rs st"
  have A: "maskElement pg st element [] = st" by (simp add: maskElement_def)
  have B: "maskElement pg st element (pii # piiItems) = maskElement pg st element piiItems"
    if "\<forall>i. \<not> occurs_at ?t (f_value pii) i"
    using mask_finding_absent [OF that] by (simp add: maskElement_def)
  have C: "s + length (f_value pii) \<le> length ?t \<and>
      maskElement pg st element (pii # piiItems) = maskElement pg ?st1 element piiItems \<and>
      body (maskElement pg st element [pii]) = body st @ [created st..<created st + length ?rs] \<and>
      (\<forall>k<length ?rs. elements (maskElement pg st element [pii]) (created st + k) =
           Some (createOverlay (?rs ! k) (f_type pii))) \<and>
      (\<forall>n<created st. elements (maskElement pg st element [pii]) n = elements st n)"
    if h: "occurs_at ?t (f_value pii) s \<and> (\<forall>j<s. \<not> occurs_at ?t (f_value pii) j)"
  proof -
    from h have 1: "s + length (f_value pii) \<le> length ?t"
      by (intro first_occurrence_indexOf(2)) simp_all
    from h have m: "mask_finding pg element ?t pii st = ?st1"
      unfolding visible_rects_def by (intro mask_finding_first) simp_all
    then have 2: "maskElement pg st element (pii # piiItems) = maskElement pg ?st1 element piiItems"
      by (simp add: maskElement_def)
    from m have one: "maskElement pg st element [pii] = ?st1" by (simp add: maskElement_def)
    have 3: "body (maskElement pg st element [pii]) = body st @ [created st..<created st + length ?rs]"
      unfolding one by (rule fold_addOverlay_body)
    have 4: "\<forall>k<length ?rs. elements (maskElement pg st element [pii]) (created st + k) =
           Some (createOverlay (?rs ! k) (f_type pii))"
      unfolding one by (intro allI impI fold_addOverlay_new)
    have 5: "\<forall>n<created st. elements (maskElement pg st element [pii]) n = elements st n"
      unfolding one by (intro allI impI fold_addOverlay_old)
    from 1 2 3 4 5 show ?thesis by (intro conjI)
  qed
  have D: "maskElement pg st element (map (\<lambda>pii. pii\<lparr>f_start := a, f_end := b\<rparr>) piiItems) =
     maskElement pg st element piiItems"
    by (simp add: maskElement_def fold_map comp_def mask_finding_offsets)
  from A B C D show ?thesis by blast
qed

theorem maskElement_first_occurrence_witness:
  "occurs_at (textContent emails_page 0) (f_value second_email) 0 \<and>
   body (maskElement emails_page initial_state 0 [second_email]) = [0] \<and>
   elements (maskElement emails_page initial_state 0 [second_email]) 0 =
     Some \<lparr>piiType = Email, style = \<lparr>r_left = 0, r_top = 0, r_width = 6, r_height = 16\<rparr>\<rparr> \<and>
   maskElement emails_page initial_state 0 [absent_email, second_email] =
     maskElement emails_page initial_state 0 [second_email] \<and>
   maskElement emails_page initial_state 0 [absent_email] = initial_state"
proof -
  have t: "textContent emails_page 0 = js ''a@b.cd a@b.cd''" by (simp add: emails_page_def)
  have o: "occurs_at (textContent emails_page 0) (f_value second_email) 0"
    unfolding t by code_simp
  have "indexOf_from (js ''a@b.cd a@b.cd'') (f_value absent_email) 0 = None" by code_simp
  then have n: "\<forall>i. \<not> occurs_at (textContent emails_page 0) (f_value absent_email) i"
    unfolding t by (rule indexOf_from_None [THEN iffD1])
  have v: "visible_rects emails_page 0 0 (0 + length (f_value second_email)) =
      [\<lparr>r_left = 0, r_top = 0, r_width = 6, r_height = 16\<rparr>]"
    by (simp add: visible_rects_def emails_page_def second_email_def js_def)
  have z: "\<forall>j<0. \<not> occurs_at (textContent emails_page 0) (f_value second_email) j"
    by simp
  from maskElement_first_occurrence
    [where pg = emails_page and st = initial_state and element = 0 and pii = second_email
       and s = 0 and piiItems = "[]"] o z
  have p: "body (maskElement emails_page initial_state 0 [second_email]) =
      body initial_state @ [created initial_state..<
        created initial_state + length (visible_rects emails_page 0 0 (0 + length (f_value second_email)))]"
    "\<forall>k<length (visible_rects emails_page 0 0 (0 + length (f_value second_email))).
       elements (maskElement emails_page initial_state 0 [second_email]) (created initial_state + k) =
         Some (createOverlay
                 (visible_rects emails_page 0 0 (0 + length (f_value second_email)) ! k)
                 (f_type second_email))"
    by blast+
  from p(1) have b: "body (maskElement emails_page initial_state 0 [second_email]) = [0]"
    unfolding v by (simp add: initial_state_def)
  from p(2) have e: "elements (maskElement emails_page initial_state 0 [second_email]) 0 =
     Some \<lparr>piiType = Email, style = \<lparr>r_left = 0, r_top = 0, r_width = 6, r_height = 16\<rparr>\<rparr>"
    unfolding v by (simp add: initial_state_def createOverlay_def second_email_def)
  from maskElement_first_occurrence
    [where pg = emails_page and st = initial_state and element = 0 and pii = absent_email
       and piiItems = "[second_email]"] n
  have s1: "maskElement emails_page initial_state 0 [absent_email, second_email] =
     maskElement emails_page initial_state 0 [second_email]"
    by blast
  from maskElement_first_occurrence
    [where pg = emails_page and st = initial_state and element = 0 and pii = absent_email
       and piiItems = "[]"] n
  have s2: "maskElement emails_page initial_state 0 [absent_email] = initial_state"
    by simp
  from o b e s1 s2 show ?thesis by (intro conjI)
qed

section \<open>Switching off\<close>

lemma filter_removeAll:
  "filter (\<lambda>y. y \<notin> set os) (removeAll x xs) = filter (\<lambda>y. y \<notin> set (x # os)) xs"
  by (induction xs) auto

lemma fold_removeChild:
  "fold removeChild os st = st\<lparr>body := filter (\<lambda>y. y \<notin> set os) (body st)\<rparr>"
proof (induction os arbitrary: st)
  case Nil
  show ?case by simp
next
  case (Cons x os)
  have "fold removeChild (x # os) st = fold removeChild os (removeChild x st)" by simp
  also have "\<dots> = (removeChild x st)\<lparr>body := filter (\<lambda>y. y \<notin> set os) (body (removeChild x st))\<rparr>"
    by (rule Cons.IH)
  also have "\<dots> = st\<lparr>body := filter (\<lambda>y. y \<notin> set (x # os)) (body st)\<rparr>"
    by (simp add: removeChild_def filter_removeAll del: set_simps)
  finally show ?case .
qed

text \<open>The overlay stands in some entry of the \<^verbatim>\<open>Map\<close>.\<close>

definition registered :: "(node \<times> element_id list) list \<Rightarrow> element_id \<Rightarrow> bool" where
  "registered m x \<longleftrightarrow> (\<exists>entry\<in>set m. x \<in> set (snd entry))"

lemma fold_remove_entries:
  "fold (\<lambda>(node, overlays). fold removeChild overlays) m st =
     st\<lparr>body := filter (\<lambda>x. \<not> registered m x) (body st)\<rparr>"
proof (induction m arbitrary: st)
  case Nil
  show ?case by (simp add: registered_def)
next
  case (Cons entry m)
  let ?f = "\<lambda>(node, overlays). fold removeChild overlays"
  have "filter (\<lambda>x. \<not> registered m x) (filter (\<lambda>y. y \<notin> set (snd entry)) (body st)) =
      filter (\<lambda>x. \<not> registered (entry # m) x) (body st)"
    by (auto simp: registered_def intro: filter_cong)
  then have e: "(st\<lparr>body := filter (\<lambda>y. y \<notin> set (snd entry)) (body st)\<rparr>)
        \<lparr>body := filter (\<lambda>x. \<not> registered m x)
           (body (st\<lparr>body := filter (\<lambda>y. y \<notin> set (snd entry)) (body st)\<rparr>))\<rparr> =
      st\<lparr>body := filter (\<lambda>x. \<not> registered (entry # m) x) (body st)\<rparr>"
    by simp
  have "fold ?f (entry # m) st = fold ?f m (fold removeChild (snd entry) st)"
    by (cases entry) simp
  also have "\<dots> = fold ?f m (st\<lparr>body := filter (\<lambda>y. y \<notin> set (snd entry)) (body st)\<rparr>)"
    by (simp only: fold_removeChild)
  also have "\<dots> = st\<lparr>body := filter (\<lambda>x. \<not> registered (entry # m) x) (body st)\<rparr>"
    by (simp only: Cons.IH e)
  finally show ?case .
qed

lemma clearAllMasks_eq:
  "clearAllMasks st =
     st\<lparr>body := filter (\<lambda>x. \<not> registered (maskedElements st) x) (body st),
        maskedElements := [], processedNodes := {}, privacy_badge := None\<rparr>"
  by (simp add: clearAllMasks_def fold_remove_entries)

text \<open>
  A page with one paragraph, and the content script after start-up on it with no
  language model at hand: one pass, in fallback mode, has masked the address.
\<close>

definition sample_page :: page where
  "sample_page =
     \<lparr>walk = [1],
      parentElement = (\<lambda>n. Some \<lparr>tag = ''p'', is_overlay = False\<rparr>),
      textContent = (\<lambda>n. js ''mail a@b.cd''),
      parent_in_document = (\<lambda>n. True),
      getClientRects = (\<lambda>n s e. [\<lparr>r_left = 50, r_top = 20, r_width = 48, r_height = 16\<rparr>]),
      getBoundingClientRect = (\<lambda>n. Some \<lparr>r_left = 10, r_top = 20, r_width = 88, r_height = 16\<rparr>)\<rparr>"

definition start_system :: system where
  "start_system = \<lparr>page_state = initial_state, in_flight = []\<rparr>"

definition scanned_system :: system where
  "scanned_system = handle sample_page (Startup AcquireFails) start_system"

lemma scanned_system_fields:
  "processedNodes (page_state scanned_system) = {1}"
  "maskedElements (page_state scanned_system) = [(1, [0])]"
  "body (page_state scanned_system) = [0]"
  "piiCounts (page_state scanned_system) Email = 1"
  "privacyScore (page_state scanned_system) = 90"
  "in_flight scanned_system = []"
  by code_simp+

text \<open>
  Claim C4, as stated, fails: switching off after that pass changes the set of processed
  nodes, from the one node to none.
\<close>

theorem toggle_off_counterexample:
  "processedNodes (page_state (handle sample_page (Toggle False) scanned_system)) \<noteq>
   processedNodes (page_state scanned_system)"
  by (simp add: clearAllMasks_eq scanned_system_fields)

text \<open>
  Claim C4, amended. Handling the toggle-off message removes every registered mask from
  the document and empties the overlay registry, empties the set of processed nodes as
  well, and disables the scanner, so that a later rescan request or rescan time-out does
  nothing; the per-category counts and the privacy score are left as they were.
\<close>

theorem toggle_off:
  "maskedElements (page_state (handle pg (Toggle False) sys)) = [] \<and>
   (\<forall>entry\<in>set (maskedElements (page_state sys)). \<forall>x\<in>set (snd entry).
      x \<notin> set (body (page_state (handle pg (Toggle False) sys)))) \<and>
   \<not> isEnabled (page_state (handle pg (Toggle False) sys)) \<and>
   handle pg' Rescan (handle pg (Toggle False) sys) = handle pg (Toggle False) sys \<and>
   handle pg' Rescan_timeout (handle pg (Toggle False) sys) = handle pg (Toggle False) sys \<and>
   processedNodes (page_state (handle pg (Toggle False) sys)) = {} \<and>
   piiCounts (page_state (handle pg (Toggle False) sys)) = piiCounts (page_state sys) \<and>
   privacyScore (page_state (handle pg (Toggle False) sys)) = privacyScore (page_state sys)"
  by (auto simp: clearAllMasks_eq scanPage_def registered_def Let_def)

theorem toggle_off_witness:
  "(1, [0]) \<in> set (maskedElements (page_state scanned_system)) \<and>
   0 \<in> set (snd (1::nat, [0::nat])) \<and> 0 \<in> set (body (page_state scanned_system)) \<and>
   0 \<notin> set (body (page_state (handle sample_page (Toggle False) scanned_system))) \<and>
   piiCounts (page_state (handle sample_page (Toggle False) scanned_system)) Email = 1 \<and>
   privacyScore (page_state (handle sample_page (Toggle False) scanned_system)) = 90"
proof -
  have h: "(1, [0]) \<in> set (maskedElements (page_state scanned_system))"
    by (simp add: scanned_system_fields)
  note t = toggle_off [of sample_page scanned_system]
  from t h have "0 \<notin> set (body (page_state (handle sample_page (Toggle False) scanned_system)))"
    by fastforce
  with t h show ?thesis by (simp add: scanned_system_fields)
qed

section \<open>Properties of a scan pass\<close>

text \<open>
  From \<open>st\<close> to \<open>st'\<close> an overlay element has changed or come into the body only as an
  element whose category is in \<open>T\<close>.
\<close>

definition adds_only :: "pii_type set \<Rightarrow> state \<Rightarrow> state \<Rightarrow> bool" where
  "adds_only T st st' \<longleftrightarrow>
     (\<forall>x. elements st' x \<noteq> elements st x \<longrightarrow> (\<exists>el. elements st' x = Some el \<and> piiType el \<in> T)) \<and>
     (\<forall>x\<in>set (body st'). x \<in> set (body st) \<or> (\<exists>el. elements st' x = Some el \<and> piiType el \<in> T))"

lemma adds_only_refl: "adds_only T st st"
  by (simp add: adds_only_def)

lemma adds_only_trans:
  assumes "adds_only T st st1" and "adds_only T st1 st2"
  shows "adds_only T st st2"
  unfolding adds_only_def
proof (intro conjI allI ballI impI)
  fix x assume "elements st2 x \<noteq> elements st x"
  then show "\<exists>el. elements st2 x = Some el \<and> piiType el \<in> T"
    using assms unfolding adds_only_def by metis
next
  fix x assume "x \<in> set (body st2)"
  then show "x \<in> set (body st) \<or> (\<exists>el. elements st2 x = Some el \<and> piiType el \<in> T)"
    using assms unfolding adds_only_def by metis
qed

lemma adds_only_fields:
  "elements st' = elements st \<Longrightarrow> body st' = body st \<Longrightarrow> adds_only T st st'"
  by (simp add: adds_only_def)

text \<open>The fields that masking leaves alone.\<close>

definition same_scan_fields :: "state \<Rightarrow> state \<Rightarrow> bool" where
  "same_scan_fields st st' \<longleftrightarrow>
     piiCounts st' = piiCounts st \<and> enabledFilters st' = enabledFilters st \<and>
     detector st' = detector st \<and> processedNodes st' = processedNodes st \<and>
     isEnabled st' = isEnabled st \<and> isInitialized st' = isInitialized st"

lemma same_scan_fields_refl: "same_scan_fields st st"
  by (simp add: same_scan_fields_def)

lemma same_scan_fields_trans:
  "same_scan_fields st st1 \<Longrightarrow> same_scan_fields st1 st2 \<Longrightarrow> same_scan_fields st st2"
  by (simp add: same_scan_fields_def)

lemma addOverlay_adds: "ty \<in> T \<Longrightarrow> adds_only T st (addOverlay st element rect ty)"
  by (auto simp: adds_only_def addOverlay_def Let_def createOverlay_def)

lemma addOverlay_same: "same_scan_fields st (addOverlay st element rect ty)"
  by (simp add: same_scan_fields_def addOverlay_def Let_def)

lemma fold_rects:
  "ty \<in> T \<Longrightarrow>
   adds_only T st (fold (\<lambda>rect st. if P rect then addOverlay st element rect ty else st) rects st) \<and>
   same_scan_fields st (fold (\<lambda>rect st. if P rect then addOverlay st element rect ty else st) rects st)"
proof (induction rects arbitrary: st)
  case Nil
  show ?case by (simp add: adds_only_refl same_scan_fields_refl)
next
  case (Cons rect rects)
  let ?st1 = "if P rect then addOverlay st element rect ty else st"
  have 1: "adds_only T st ?st1" "same_scan_fields st ?st1"
    using Cons.prems
    by (cases "P rect"; simp add: addOverlay_adds addOverlay_same adds_only_refl
        same_scan_fields_refl)+
  from Cons.IH [OF Cons.prems, of ?st1] 1 show ?case
    by (auto intro: adds_only_trans same_scan_fields_trans)
qed

lemma mask_finding_adds:
  "f_type pii \<in> T \<Longrightarrow>
   adds_only T st (mask_finding pg element t pii st) \<and>
   same_scan_fields st (mask_finding pg element t pii st)"
proof (cases "mask_range t pii")
  case None
  then show ?thesis by (simp add: mask_finding_def adds_only_refl same_scan_fields_refl)
next
  case (Some r)
  assume "f_type pii \<in> T"
  from fold_rects [OF this] Some show ?thesis
    by (cases r) (simp add: mask_finding_def)
qed

lemma maskElement_adds:
  "f_type ` set piiItems \<subseteq> T \<Longrightarrow>
   adds_only T st (maskElement pg st element piiItems) \<and>
   same_scan_fields st (maskElement pg st element piiItems)"
  unfolding maskElement_def
proof (induction piiItems arbitrary: st)
  case Nil
  show ?case by (simp add: adds_only_refl same_scan_fields_refl)
next
  case (Cons pii piiItems)
  let ?st1 = "mask_finding pg element (textContent pg element) pii st"
  from Cons.prems have "f_type pii \<in> T" "f_type ` set piiItems \<subseteq> T" by simp_all
  from mask_finding_adds [OF this(1), of st pg element "textContent pg element"]
    Cons.IH [OF this(2), of ?st1]
  show ?case by (auto intro: adds_only_trans same_scan_fields_trans)
qed

lemma fold_count_item:
  "fold count_item items st =
     st\<lparr>piiCounts := (\<lambda>c. piiCounts st c + length (filter (\<lambda>item. f_type item = c) items))\<rparr>"
proof (induction items arbitrary: st)
  case Nil
  show ?case by simp
next
  case (Cons item items)
  have "fold count_item (item # items) st = fold count_item items (count_item item st)" by simp
  also have "\<dots> = (count_item item st)\<lparr>piiCounts := (\<lambda>c. piiCounts (count_item item st) c +
      length (filter (\<lambda>item. f_type item = c) items))\<rparr>"
    by (rule Cons.IH)
  also have "\<dots> = st\<lparr>piiCounts := (\<lambda>c. piiCounts st c +
      length (filter (\<lambda>i. f_type i = c) (item # items)))\<rparr>"
    by (auto simp: count_item_def fun_eq_iff)
  finally show ?case .
qed


lemma filter_filter_type:
  "length (filter (\<lambda>item. f_type item = c) (filter (\<lambda>item. E (f_type item)) items)) =
     (if E c then length (filter (\<lambda>item. f_type item = c) items) else 0)"
  by (induction items) auto

lemma scan_items_eq:
  "scan_items pg st node piiItems found =
     (if filter (\<lambda>item. enabledFilters st (f_type item)) piiItems = []
      then (st\<lparr>processedNodes := insert node (processedNodes st)\<rparr>, found)
      else ((maskElement pg st node (filter (\<lambda>item. enabledFilters st (f_type item)) piiItems))
              \<lparr>piiCounts := (\<lambda>c. piiCounts
                   (maskElement pg st node (filter (\<lambda>item. enabledFilters st (f_type item)) piiItems)) c +
                   (if enabledFilters st c
                    then length (filter (\<lambda>item. f_type item = c) piiItems) else 0)),
                processedNodes := insert node (processedNodes
                   (maskElement pg st node (filter (\<lambda>item. enabledFilters st (f_type item)) piiItems)))\<rparr>,
            found + length (filter (\<lambda>item. enabledFilters st (f_type item)) piiItems)))"
  by (simp add: scan_items_def Let_def fold_count_item filter_filter_type del: filter_filter)

lemma scan_items_props:
  fixes pg st node piiItems found
  defines "st' \<equiv> fst (scan_items pg st node piiItems found)"
  shows "piiCounts st' c = piiCounts st c +
           (if enabledFilters st c then length (filter (\<lambda>item. f_type item = c) piiItems) else 0)"
    and "adds_only (Collect (enabledFilters st)) st st'"
    and "enabledFilters st' = enabledFilters st"
    and "detector st' = detector st"
    and "snd (scan_items pg st node piiItems found) =
           found + length (filter (\<lambda>item. enabledFilters st (f_type item)) piiItems)"
proof -
  let ?f = "filter (\<lambda>item. enabledFilters st (f_type item)) piiItems"
  let ?m = "maskElement pg st node ?f"
  have "f_type ` set ?f \<subseteq> Collect (enabledFilters st)" by auto
  from maskElement_adds [OF this, of st pg node]
  have m: "adds_only (Collect (enabledFilters st)) st ?m" "same_scan_fields st ?m" by simp_all
  from m(2) have same: "piiCounts ?m = piiCounts st" "enabledFilters ?m = enabledFilters st"
    "detector ?m = detector st"
    by (simp_all add: same_scan_fields_def)
  show "piiCounts st' c = piiCounts st c +
           (if enabledFilters st c then length (filter (\<lambda>item. f_type item = c) piiItems) else 0)"
  proof (cases "?f = []")
    case True
    then have "length (filter (\<lambda>item. f_type item = c) ?f) = 0" by simp
    then have "(if enabledFilters st c then length (filter (\<lambda>item. f_type item = c) piiItems) else 0) = 0"
      by (simp only: filter_filter_type)
    with True show ?thesis by (simp add: st'_def scan_items_eq)
  next
    case False
    then show ?thesis by (simp add: st'_def scan_items_eq same)
  qed
  show "adds_only (Collect (enabledFilters st)) st st'"
  proof (cases "?f = []")
    case True
    then show ?thesis by (simp add: st'_def scan_items_eq adds_only_def)
  next
    case False
    have "adds_only (Collect (enabledFilters st)) ?m st'"
      using False by (intro adds_only_fields) (simp_all add: st'_def scan_items_eq)
    with m(1) show ?thesis by (rule adds_only_trans)
  qed
  show "enabledFilters st' = enabledFilters st"
    by (cases "?f = []") (simp_all add: st'_def scan_items_eq same)
  show "detector st' = detector st"
    by (cases "?f = []") (simp_all add: st'_def scan_items_eq same)
  show "snd (scan_items pg st node piiItems found) =
           found + length (filter (\<lambda>item. enabledFilters st (f_type item)) piiItems)"
    by (cases "?f = []") (simp_all add: scan_items_eq)
qed

lemma scan_finish_fields:
  "piiCounts (scan_finish st found) = piiCounts st"
  "elements (scan_finish st found) = elements st"
  "body (scan_finish st found) = body st"
  by (simp_all add: scan_finish_def updateBadge_def updatePrivacyBadge_def)

text \<open>The three ways one turn of the loop can go.\<close>

definition skipped :: "page \<Rightarrow> state \<Rightarrow> node \<Rightarrow> bool" where
  "skipped pg st node \<longleftrightarrow>
     node \<in> processedNodes st \<or> textContent pg node = [] \<or>
     length (trim (textContent pg node)) < MIN_TEXT_LENGTH"

lemma scan_loop_skip:
  "skipped pg st node \<Longrightarrow> scan_loop pg st (node # rest) found = scan_loop pg st rest found"
  by (cases "node \<in> processedNodes st") (simp_all add: skipped_def Let_def)

lemma scan_loop_done:
  "\<not> skipped pg st node \<Longrightarrow>
   snd (detect_begin (detector st) (Some (textContent pg node))) = Done piiItems \<Longrightarrow>
   scan_loop pg st (node # rest) found =
     scan_loop pg (fst (scan_items pg st node piiItems found)) rest
       (snd (scan_items pg st node piiItems found))"
  by (simp add: skipped_def Let_def split_beta)

lemma scan_loop_wait:
  "\<not> skipped pg st node \<Longrightarrow>
   snd (detect_begin (detector st) (Some (textContent pg node))) = Awaiting s t \<Longrightarrow>
   scan_loop pg st (node # rest) found =
     (st, Some \<lparr>awaited_node = node, awaited_text = textContent pg node, remaining = rest,
                totalFound = found\<rparr>)"
  by (simp add: skipped_def Let_def)

declare scan_loop.simps [simp del]

lemma scan_loop_props:
  "\<not> enabledFilters st c \<Longrightarrow> piiCounts (fst (scan_loop pg st nodes found)) c = piiCounts st c"
  "adds_only (Collect (enabledFilters st)) st (fst (scan_loop pg st nodes found))"
proof (induction nodes arbitrary: st found)
  case Nil
  {
    case 1
    show ?case by (simp add: scan_loop.simps scan_finish_fields)
  next
    case 2
    show ?case by (simp add: scan_loop.simps adds_only_fields scan_finish_fields)
  }
next
  case (Cons node rest)
  let ?text = "textContent pg node"
  {
    case 1
    show ?case
    proof (cases "skipped pg st node")
      case True
      with Cons.IH(1) [OF 1] show ?thesis by (simp only: scan_loop_skip)
    next
      case False
      show ?thesis
      proof (cases "snd (detect_begin (detector st) (Some ?text))")
        case (Done piiItems)
        let ?r = "scan_items pg st node piiItems found"
        from 1 have d: "\<not> enabledFilters (fst ?r) c" by (simp add: scan_items_props(3))
        from 1 have "piiCounts (fst ?r) c = piiCounts st c" by (simp add: scan_items_props(1))
        with Cons.IH(1) [OF d, of "snd ?r"] show ?thesis
          by (simp only: scan_loop_done [OF False Done])
      next
        case (Awaiting s t)
        show ?thesis by (simp only: scan_loop_wait [OF False Awaiting] fst_conv)
      qed
    qed
  next
    case 2
    show ?case
    proof (cases "skipped pg st node")
      case True
      with Cons.IH(2) [of st found] show ?thesis by (simp only: scan_loop_skip)
    next
      case False
      show ?thesis
      proof (cases "snd (detect_begin (detector st) (Some ?text))")
        case (Done piiItems)
        let ?r = "scan_items pg st node piiItems found"
        have "adds_only (Collect (enabledFilters st)) st (fst ?r)" by (rule scan_items_props(2))
        moreover have "adds_only (Collect (enabledFilters st)) (fst ?r) (fst (scan_loop pg (fst ?r) rest (snd ?r)))"
          using Cons.IH(2) [of "fst ?r" "snd ?r"] by (simp add: scan_items_props(3))
        ultimately have "adds_only (Collect (enabledFilters st)) st (fst (scan_loop pg (fst ?r) rest (snd ?r)))"
          by (rule adds_only_trans)
        then show ?thesis by (simp only: scan_loop_done [OF False Done])
      next
        case (Awaiting s t)
        show ?thesis by (simp only: scan_loop_wait [OF False Awaiting] fst_conv adds_only_refl)
      qed
    qed
  }
qed


text \<open>
  Claim C8. When the loop of a scan pass deals with the findings of a node, only the
  findings of enabled categories are masked and counted: the count of a category goes up
  by the number of its findings if it is enabled and not at all if it is disabled, the
  total goes up by the number of findings of enabled categories, and every overlay
  element made has an enabled category. Hence over a whole run of the loop, up to its end
  or to the next wait, the count of a disabled category stays as it was and no overlay
  of a disabled category appears.
\<close>

theorem filter_suppression:
  "(\<forall>c. piiCounts (fst (scan_items pg st node piiItems found)) c =
          piiCounts st c +
          (if enabledFilters st c then length (filter (\<lambda>item. f_type item = c) piiItems) else 0)) \<and>
   adds_only (Collect (enabledFilters st)) st (fst (scan_items pg st node piiItems found)) \<and>
   snd (scan_items pg st node piiItems found) =
     found + length (filter (\<lambda>item. enabledFilters st (f_type item)) piiItems) \<and>
   (\<forall>c. \<not> enabledFilters st c \<longrightarrow>
          piiCounts (fst (scan_loop pg st nodes found)) c = piiCounts st c) \<and>
   adds_only (Collect (enabledFilters st)) st (fst (scan_loop pg st nodes found))"
  by (simp add: scan_items_props scan_loop_props)

definition two_findings_page :: page where
  "two_findings_page = sample_page\<lparr>textContent := (\<lambda>n. js ''a@b.cd 555-123-4567'')\<rparr>"

definition email_off :: state where
  "email_off =
     initial_state\<lparr>detector := fallback_only, isInitialized := True,
       enabledFilters := (\<lambda>ty. ty \<noteq> Email)\<rparr>"

lemma email_off_pass:
  "map f_type (regexFallback (js ''a@b.cd 555-123-4567'')) = [Email, Phone]"
  "\<not> enabledFilters email_off Email"
  "piiCounts email_off Email = 0"
  "body email_off = []"
  "body (fst (scan_loop two_findings_page email_off (getTextNodes two_findings_page) 0)) = [0]"
  "map_option piiType (elements (fst (scan_loop two_findings_page email_off (getTextNodes two_findings_page) 0)) 0) = Some Phone"
  by code_simp+

theorem filter_suppression_witness:
  "Email \<in> set (map f_type (regexFallback (js ''a@b.cd 555-123-4567''))) \<and>
   \<not> enabledFilters email_off Email \<and>
   piiCounts (fst (scan_loop two_findings_page email_off (getTextNodes two_findings_page) 0)) Email = 0 \<and>
   0 \<in> set (body (fst (scan_loop two_findings_page email_off (getTextNodes two_findings_page) 0))) \<and>
   0 \<notin> set (body email_off) \<and>
   (\<exists>el. elements (fst (scan_loop two_findings_page email_off (getTextNodes two_findings_page) 0)) 0 = Some el \<and>
      piiType el \<in> Collect (enabledFilters email_off))"
proof -
  note t = filter_suppression [of two_findings_page email_off _ _ 0 "getTextNodes two_findings_page"]
  from t have c: "piiCounts (fst (scan_loop two_findings_page email_off (getTextNodes two_findings_page) 0)) Email = 0"
    using email_off_pass(2,3) by simp
  from t have "adds_only (Collect (enabledFilters email_off)) email_off
      (fst (scan_loop two_findings_page email_off (getTextNodes two_findings_page) 0))" by simp
  then have "\<exists>el. elements (fst (scan_loop two_findings_page email_off (getTextNodes two_findings_page) 0)) 0 = Some el \<and>
      piiType el \<in> Collect (enabledFilters email_off)"
    unfolding adds_only_def using email_off_pass(4,5) by simp
  with c show ?thesis by (simp add: email_off_pass)
qed

section \<open>Passes in flight\<close>

text \<open>
  The scanner is switched on and initialised, and its detector holds a session of the
  language model.
\<close>

definition model_ready :: "state \<Rightarrow> bool" where
  "model_ready st \<longleftrightarrow>
     isEnabled st \<and> isInitialized st \<and> \<not> useRegexFallback (detector st) \<and>
     session (detector st) \<noteq> None"

lemma accepted_not_blank:
  assumes "acceptNode pg n"
  shows "textContent pg n \<noteq> []" and "\<not> length (trim (textContent pg n)) < MIN_TEXT_LENGTH"
    and "\<not> falsy_or_blank (Some (textContent pg n))"
proof -
  from assms show len: "\<not> length (trim (textContent pg n)) < MIN_TEXT_LENGTH"
    by (auto simp: acceptNode_def split: option.splits)
  then have "trim (textContent pg n) \<noteq> []" by (auto simp: MIN_TEXT_LENGTH_def)
  moreover have "trim [] = []" by (simp add: trim_def)
  ultimately show "textContent pg n \<noteq> []" by auto
  with \<open>trim (textContent pg n) \<noteq> []\<close> show "\<not> falsy_or_blank (Some (textContent pg n))"
    by (simp add: falsy_or_blank_def)
qed

lemma scanPage_model_ready:
  assumes "model_ready (page_state sys)" and "getTextNodes pg \<noteq> []"
  shows "scanPage pg sys =
           \<lparr>page_state = resetPrivacyData (clearAllMasks (page_state sys)),
            in_flight = in_flight sys @
              [\<lparr>awaited_node = hd (getTextNodes pg),
                awaited_text = textContent pg (hd (getTextNodes pg)),
                remaining = tl (getTextNodes pg), totalFound = 0\<rparr>]\<rparr>"
proof -
  let ?st1 = "resetPrivacyData (clearAllMasks (page_state sys))"
  let ?n = "hd (getTextNodes pg)"
  from assms(2) have nodes: "getTextNodes pg = ?n # tl (getTextNodes pg)" by simp
  from assms(2) have "?n \<in> set (getTextNodes pg)" by simp
  then have acc: "acceptNode pg ?n" by (simp add: getTextNodes_def)
  have st1: "processedNodes ?st1 = {}" "detector ?st1 = detector (page_state sys)"
    by (simp_all add: resetPrivacyData_def clearAllMasks_eq)
  from accepted_not_blank [OF acc] st1(1) have ns: "\<not> skipped pg ?st1 ?n"
    by (simp add: skipped_def)
  from assms(1) obtain s where s: "session (detector (page_state sys)) = Some s"
    and nf: "\<not> useRegexFallback (detector (page_state sys))"
    by (auto simp: model_ready_def)
  from accepted_not_blank(3) [OF acc] s nf
  have "snd (detect_begin (detector ?st1) (Some (textContent pg ?n))) = Awaiting s (textContent pg ?n)"
    by (simp add: detect_begin_def st1(2) Let_def)
  from scan_loop_wait [OF ns this, of "tl (getTextNodes pg)" 0] nodes
  have "scan_loop pg ?st1 (getTextNodes pg) 0 =
      (?st1, Some \<lparr>awaited_node = ?n, awaited_text = textContent pg ?n,
                    remaining = tl (getTextNodes pg), totalFound = 0\<rparr>)"
    by simp
  with assms(1) show ?thesis by (simp add: scanPage_def model_ready_def)
qed

lemma model_ready_after_clear: "model_ready st \<Longrightarrow> model_ready (resetPrivacyData (clearAllMasks st))"
  by (simp add: model_ready_def resetPrivacyData_def clearAllMasks_eq)

text \<open>The events that call \<^verbatim>\<open>scanPage\<close> straight away.\<close>

definition is_trigger :: "event \<Rightarrow> bool" where
  "is_trigger ev \<longleftrightarrow> ev = Rescan \<or> ev = Rescan_timeout \<or> ev = Toggle True"

lemma scanPage_piles_up:
  assumes "model_ready (page_state sys)" and "getTextNodes pg \<noteq> []"
  shows "model_ready (page_state (scanPage pg sys)) \<and>
         length (in_flight (scanPage pg sys)) = length (in_flight sys) + 1"
  using scanPage_model_ready [OF assms] model_ready_after_clear [OF assms(1)] by simp

lemma trigger_model_ready:
  assumes "model_ready (page_state sys)" and "getTextNodes pg \<noteq> []" and "is_trigger ev"
  shows "model_ready (page_state (handle pg ev sys)) \<and>
         length (in_flight (handle pg ev sys)) = length (in_flight sys) + 1"
proof -
  let ?sys1 = "sys\<lparr>page_state := (page_state sys)\<lparr>isEnabled := True\<rparr>\<rparr>"
  from assms(1) have r1: "model_ready (page_state ?sys1)" by (simp add: model_ready_def)
  from assms(3) consider "handle pg ev sys = scanPage pg sys" | "handle pg ev sys = scanPage pg ?sys1"
    by (auto simp: is_trigger_def)
  then show ?thesis
  proof cases
    case 1
    with scanPage_piles_up [OF assms(1,2)] show ?thesis by simp
  next
    case 2
    with scanPage_piles_up [OF r1 assms(2)] show ?thesis by simp
  qed
qed

lemma triggers_pile_up:
  "model_ready (page_state sys) \<Longrightarrow> getTextNodes pg \<noteq> [] \<Longrightarrow> \<forall>ev\<in>set evs. is_trigger ev \<Longrightarrow>
   length (in_flight (run (map (Pair pg) evs) sys)) = length (in_flight sys) + length evs"
proof (induction evs arbitrary: sys)
  case Nil
  show ?case by simp
next
  case (Cons ev evs)
  from Cons.prems have t: "is_trigger ev" "\<forall>ev\<in>set evs. is_trigger ev" by simp_all
  from trigger_model_ready [OF Cons.prems(1,2) t(1)]
    Cons.IH [OF _ Cons.prems(2) t(2), of "handle pg ev sys"]
  show ?case by simp
qed


text \<open>
  The content script after start-up on the sample page with a language model at hand:
  the first pass waits for the answer to its prompt.
\<close>

definition awaiting_system :: system where
  "awaiting_system = handle sample_page (Startup (Acquired 0)) start_system"

definition switched_off_system :: system where
  "switched_off_system = handle sample_page (Toggle False) scanned_system"

lemma awaiting_system_fields:
  "model_ready (page_state awaiting_system)"
  "length (in_flight awaiting_system) = 1"
  "getTextNodes sample_page \<noteq> []"
  "\<not> isEnabled (page_state switched_off_system)"
  by code_simp+

text \<open>
  Claim C3, as stated, fails: a rescan request that arrives while the first pass waits
  for its prompt starts a second pass, and two passes are in flight.
\<close>

theorem single_pass_counterexample:
  "\<not> length (in_flight (run [(sample_page, Startup (Acquired 0)), (sample_page, Rescan)]
       start_system)) \<le> 1"
  by code_simp

text \<open>
  Claim C3, amended. \<^verbatim>\<open>scanPage\<close> has no guard against a pass in flight: a trigger
  (rescan request, rescan time-out after mutations, toggle-on) is dropped only when the
  scanner is disabled or not initialised. When it is enabled and initialised with a
  model-backed detector and the page has a text node to scan, every trigger starts a
  further pass next to those already waiting for the detector, so after any sequence of
  triggers as many more passes are in flight as there were triggers.
\<close>

theorem no_in_flight_guard:
  "(\<not> isEnabled (page_state sys) \<or> \<not> isInitialized (page_state sys) \<longrightarrow>
      handle pg Rescan sys = sys \<and> handle pg Rescan_timeout sys = sys) \<and>
   (model_ready (page_state sys) \<and> getTextNodes pg \<noteq> [] \<and> (\<forall>ev\<in>set evs. is_trigger ev) \<longrightarrow>
      length (in_flight (run (map (Pair pg) evs) sys)) = length (in_flight sys) + length evs)"
  using triggers_pile_up [of sys pg evs] by (auto simp: scanPage_def)

theorem no_in_flight_guard_witness:
  "\<not> isEnabled (page_state switched_off_system) \<and>
   handle sample_page Rescan switched_off_system = switched_off_system \<and>
   model_ready (page_state awaiting_system) \<and> getTextNodes sample_page \<noteq> [] \<and>
   is_trigger Rescan \<and> is_trigger (Toggle True) \<and> is_trigger Rescan_timeout \<and>
   length (in_flight awaiting_system) = 1 \<and>
   length (in_flight (run (map (Pair sample_page) [Rescan, Toggle True, Rescan_timeout])
     awaiting_system)) = 4"
proof -
  have t: "\<forall>ev\<in>set [Rescan, Toggle True, Rescan_timeout]. is_trigger ev"
    by (simp add: is_trigger_def)
  from no_in_flight_guard [of switched_off_system sample_page] awaiting_system_fields(4)
  have a: "handle sample_page Rescan switched_off_system = switched_off_system" by blast
  from no_in_flight_guard [of awaiting_system sample_page "[Rescan, Toggle True, Rescan_timeout]"]
    awaiting_system_fields(1,3) t
  have "length (in_flight (run (map (Pair sample_page) [Rescan, Toggle True, Rescan_timeout])
     awaiting_system)) = length (in_flight awaiting_system) + length [Rescan, Toggle True, Rescan_timeout]"
    by blast
  then have b: "length (in_flight (run (map (Pair sample_page) [Rescan, Toggle True, Rescan_timeout])
     awaiting_system)) = 4"
    by (simp add: awaiting_system_fields(2))
  from t have t': "is_trigger Rescan" "is_trigger (Toggle True)" "is_trigger Rescan_timeout"
    by simp_all
  from awaiting_system_fields(4) a awaiting_system_fields(1,3) t' awaiting_system_fields(2) b
  show ?thesis by (intro conjI)
qed

section \<open>Repositioning\<close>

text \<open>Whether a node has a bounding rectangle of positive width and height on the page.\<close>

definition has_box :: "page \<Rightarrow> node \<Rightarrow> bool" where
  "has_box pg node \<longleftrightarrow>
     (case getBoundingClientRect pg node of
        None \<Rightarrow> False
      | Some rect \<Rightarrow> r_width rect > 0 \<and> r_height rect > 0)"

text \<open>No overlay is registered under two different nodes.\<close>

definition disjoint_overlays :: "(node \<times> element_id list) list \<Rightarrow> bool" where
  "disjoint_overlays m \<longleftrightarrow>
     (\<forall>e\<in>set m. \<forall>e'\<in>set m. fst e \<noteq> fst e' \<longrightarrow> set (snd e) \<inter> set (snd e') = {})"

lemma restyle_twice: "map_option (restyle rect) (map_option (restyle rect) v) = map_option (restyle rect) v"
  by (cases v) (simp_all add: restyle_def)

lemma fold_set_style:
  "fold (set_style rect) os st =
     st\<lparr>elements := (\<lambda>y. if y \<in> set os then map_option (restyle rect) (elements st y)
                            else elements st y)\<rparr>"
proof (induction os arbitrary: st)
  case Nil
  show ?case by simp
next
  case (Cons x os)
  let ?E = "(elements st)(x := map_option (restyle rect) (elements st x))"
  have fe: "(\<lambda>y. if y \<in> set os then map_option (restyle rect) (?E y) else ?E y) =
      (\<lambda>y. if y \<in> set (x # os) then map_option (restyle rect) (elements st y) else elements st y)"
    by (rule ext) (simp add: restyle_twice)
  have "fold (set_style rect) (x # os) st = fold (set_style rect) os (set_style rect x st)"
    by simp
  also have "\<dots> = (set_style rect x st)\<lparr>elements := (\<lambda>y. if y \<in> set os
      then map_option (restyle rect) (elements (set_style rect x st) y)
      else elements (set_style rect x st) y)\<rparr>"
    by (rule Cons.IH)
  also have "\<dots> = st\<lparr>elements := (\<lambda>y. if y \<in> set os then map_option (restyle rect) (?E y) else ?E y)\<rparr>"
    by (simp add: set_style_def cong: if_cong)
  also have "\<dots> = st\<lparr>elements := (\<lambda>y. if y \<in> set (x # os)
      then map_option (restyle rect) (elements st y) else elements st y)\<rparr>"
    by (simp only: fe)
  finally show ?case .
qed

lemma reposition_entry_eq:
  "reposition_entry pg e st =
     (if \<not> parent_in_document pg (fst e) then
        st\<lparr>body := filter (\<lambda>y. y \<notin> set (snd e)) (body st),
           maskedElements := filter (\<lambda>e'. fst e' \<noteq> fst e) (maskedElements st)\<rparr>
      else if has_box pg (fst e) then
        st\<lparr>elements := (\<lambda>y. if y \<in> set (snd e)
             then map_option (restyle (the (getBoundingClientRect pg (fst e)))) (elements st y)
             else elements st y)\<rparr>
      else st)"
proof (cases "getBoundingClientRect pg (fst e)")
  case None
  then show ?thesis
    by (simp add: reposition_entry_def Let_def fold_removeChild has_box_def map_delete_def)
next
  case (Some rect)
  then show ?thesis
    by (simp add: reposition_entry_def Let_def fold_removeChild fold_set_style has_box_def
        map_delete_def cong: if_cong)
qed

text \<open>What a run over some entries of the \<^verbatim>\<open>Map\<close> leaves of each field.\<close>

lemma fold_reposition_created:
  "created (fold (reposition_entry pg) es st) = created st"
proof (induction es arbitrary: st)
  case Nil
  show ?case by simp
next
  case (Cons e es)
  have "created (fold (reposition_entry pg) (e # es) st) =
      created (fold (reposition_entry pg) es (reposition_entry pg e st))" by simp
  also have "\<dots> = created (reposition_entry pg e st)" by (rule Cons.IH)
  also have "\<dots> = created st" by (simp add: reposition_entry_eq)
  finally show ?case .
qed

lemma fold_reposition_piiType:
  "map_option piiType (elements (fold (reposition_entry pg) es st) x) =
     map_option piiType (elements st x)"
proof (induction es arbitrary: st)
  case Nil
  show ?case by simp
next
  case (Cons e es)
  have "map_option piiType (elements (fold (reposition_entry pg) (e # es) st) x) =
      map_option piiType (elements (fold (reposition_entry pg) es (reposition_entry pg e st)) x)"
    by simp
  also have "\<dots> = map_option piiType (elements (reposition_entry pg e st) x)" by (rule Cons.IH)
  also have "\<dots> = map_option piiType (elements st x)"
    by (cases "elements st x") (simp_all add: reposition_entry_eq restyle_def)
  finally show ?case .
qed

lemma fold_reposition_body:
  "body (fold (reposition_entry pg) es st) =
     filter (\<lambda>y. \<forall>e\<in>set es. \<not> parent_in_document pg (fst e) \<longrightarrow> y \<notin> set (snd e)) (body st)"
proof (induction es arbitrary: st)
  case Nil
  show ?case by simp
next
  case (Cons e es)
  let ?keep = "\<lambda>es y. \<forall>e\<in>set es. \<not> parent_in_document pg (fst e) \<longrightarrow> y \<notin> set (snd e)"
  have "body (fold (reposition_entry pg) (e # es) st) =
      body (fold (reposition_entry pg) es (reposition_entry pg e st))" by simp
  also have "\<dots> = filter (?keep es) (body (reposition_entry pg e st))" by (rule Cons.IH)
  also have "\<dots> = filter (?keep (e # es)) (body st)"
    by (auto simp: reposition_entry_eq intro: filter_cong)
  finally show ?case .
qed

lemma fold_reposition_maskedElements:
  "maskedElements (fold (reposition_entry pg) es st) =
     filter (\<lambda>e'. \<forall>e\<in>set es. \<not> parent_in_document pg (fst e) \<longrightarrow> fst e' \<noteq> fst e)
       (maskedElements st)"
proof (induction es arbitrary: st)
  case Nil
  show ?case by simp
next
  case (Cons e es)
  let ?keep = "\<lambda>es e'. \<forall>e\<in>set es. \<not> parent_in_document pg (fst e) \<longrightarrow> fst e' \<noteq> fst e"
  have "maskedElements (fold (reposition_entry pg) (e # es) st) =
      maskedElements (fold (reposition_entry pg) es (reposition_entry pg e st))" by simp
  also have "\<dots> = filter (?keep es) (maskedElements (reposition_entry pg e st))" by (rule Cons.IH)
  also have "\<dots> = filter (?keep (e # es)) (maskedElements st)"
    by (auto simp: reposition_entry_eq intro: filter_cong)
  finally show ?case .
qed

lemma fold_reposition_elements:
  assumes "\<forall>e\<in>set es. x \<in> set (snd e) \<longrightarrow> fst e = node"
  shows "elements (fold (reposition_entry pg) es st) x =
     (if (\<exists>e\<in>set es. x \<in> set (snd e)) \<and> parent_in_document pg node \<and> has_box pg node
      then map_option (restyle (the (getBoundingClientRect pg node))) (elements st x)
      else elements st x)"
  using assms
proof (induction es arbitrary: st)
  case Nil
  show ?case by simp
next
  case (Cons e es)
  let ?st1 = "reposition_entry pg e st"
  from Cons.prems have rest: "\<forall>e\<in>set es. x \<in> set (snd e) \<longrightarrow> fst e = node"
    and here: "x \<in> set (snd e) \<Longrightarrow> fst e = node" by simp_all
  have e1: "elements ?st1 x =
     (if x \<in> set (snd e) \<and> parent_in_document pg node \<and> has_box pg node
      then map_option (restyle (the (getBoundingClientRect pg node))) (elements st x)
      else elements st x)"
    using here by (auto simp: reposition_entry_eq)
  have "elements (fold (reposition_entry pg) (e # es) st) x =
      elements (fold (reposition_entry pg) es ?st1) x" by simp
  also have "\<dots> =
     (if (\<exists>e\<in>set es. x \<in> set (snd e)) \<and> parent_in_document pg node \<and> has_box pg node
      then map_option (restyle (the (getBoundingClientRect pg node))) (elements ?st1 x)
      else elements ?st1 x)"
    by (rule Cons.IH [OF rest])
  also have "\<dots> =
     (if (\<exists>e\<in>set (e # es). x \<in> set (snd e)) \<and> parent_in_document pg node \<and> has_box pg node
      then map_option (restyle (the (getBoundingClientRect pg node))) (elements st x)
      else elements st x)"
    unfolding e1 by (auto simp: restyle_twice)
  finally show ?case .
qed


lemma map_of_filter_key:
  "\<forall>e\<in>set m. fst e = k \<longrightarrow> P e \<Longrightarrow> map_of (filter P m) k = map_of m k"
  by (induction m) auto

definition hidden_page :: page where
  "hidden_page =
     sample_page\<lparr>getBoundingClientRect :=
       (\<lambda>n. Some \<lparr>r_left = 0, r_top = 0, r_width = 0, r_height = 0\<rparr>)\<rparr>"

definition detached_page :: page where
  "detached_page = sample_page\<lparr>parent_in_document := (\<lambda>n. False)\<rparr>"

text \<open>
  Claim C9, as stated, fails: the masked node of the sample is still attached but its
  bounding rectangle has become empty; the overlay is not moved to that rectangle.
\<close>

theorem reposition_counterexample:
  "parent_in_document hidden_page 1 \<and>
   map_option style (elements (updateOverlayPositions hidden_page (page_state scanned_system)) 0)
     \<noteq> getBoundingClientRect hidden_page 1"
  by code_simp

text \<open>
  Claim C9, amended. For every masked unit, in a registry that holds no overlay under
  two units: if the unit is still attached, reposition keeps its registry entry and its
  mask elements in the document and gives each of them the unit's recomputed bounding
  rectangle when that rectangle has positive width and height, leaving their geometry as
  it is otherwise; if the unit is no longer attached, all of its mask elements are
  removed from the document and its registry entry is deleted. No mask element is
  created, and none changes its category.
\<close>

theorem reposition_entries:
  assumes "(node, overlays) \<in> set (maskedElements st)"
    and "disjoint_overlays (maskedElements st)"
  shows "(parent_in_document pg node \<longrightarrow>
            (node, overlays) \<in> set (maskedElements (updateOverlayPositions pg st)) \<and>
            map_get (maskedElements (updateOverlayPositions pg st)) node =
              map_get (maskedElements st) node \<and>
            (\<forall>x\<in>set overlays.
               (x \<in> set (body (updateOverlayPositions pg st)) \<longleftrightarrow> x \<in> set (body st)) \<and>
               elements (updateOverlayPositions pg st) x =
                 (if has_box pg node
                  then map_option (restyle (the (getBoundingClientRect pg node))) (elements st x)
                  else elements st x))) \<and>
         (\<not> parent_in_document pg node \<longrightarrow>
            \<not> map_has (maskedElements (updateOverlayPositions pg st)) node \<and>
            (\<forall>x\<in>set overlays. x \<notin> set (body (updateOverlayPositions pg st)))) \<and>
         created (updateOverlayPositions pg st) = created st \<and>
         set (body (updateOverlayPositions pg st)) \<subseteq> set (body st) \<and>
         (\<forall>x. map_option piiType (elements (updateOverlayPositions pg st) x) =
               map_option piiType (elements st x))"
proof -
  let ?m = "maskedElements st"
  let ?st' = "updateOverlayPositions pg st"
  have other: "x \<notin> set (snd e)" if "e \<in> set ?m" "fst e \<noteq> node" "x \<in> set overlays" for e x
  proof -
    from assms(2) that(1) assms(1) that(2)
    have "set (snd e) \<inter> set (snd (node, overlays)) = {}"
      unfolding disjoint_overlays_def by fastforce
    with that(3) show ?thesis by auto
  qed
  have A: "parent_in_document pg node \<longrightarrow>
            (node, overlays) \<in> set (maskedElements ?st') \<and>
            map_get (maskedElements ?st') node = map_get ?m node \<and>
            (\<forall>x\<in>set overlays.
               (x \<in> set (body ?st') \<longleftrightarrow> x \<in> set (body st)) \<and>
               elements ?st' x =
                 (if has_box pg node
                  then map_option (restyle (the (getBoundingClientRect pg node))) (elements st x)
                  else elements st x))"
  proof (intro impI conjI ballI)
    assume att: "parent_in_document pg node"
    then have keep: "\<forall>e\<in>set ?m. \<not> parent_in_document pg (fst e) \<longrightarrow> fst e' \<noteq> fst e"
      if "fst e' = node" for e'
      using that by auto
    from assms(1) keep [of "(node, overlays)"]
    show "(node, overlays) \<in> set (maskedElements ?st')"
      by (simp add: updateOverlayPositions_def fold_reposition_maskedElements)
    show "map_get (maskedElements ?st') node = map_get ?m node"
      unfolding map_get_def updateOverlayPositions_def fold_reposition_maskedElements
      by (rule map_of_filter_key) (use keep in blast)
    fix x assume x: "x \<in> set overlays"
    have "\<forall>e\<in>set ?m. \<not> parent_in_document pg (fst e) \<longrightarrow> x \<notin> set (snd e)"
      using other [OF _ _ x] att by metis
    then show "x \<in> set (body ?st') \<longleftrightarrow> x \<in> set (body st)"
      by (simp add: updateOverlayPositions_def fold_reposition_body)
    have only: "\<forall>e\<in>set ?m. x \<in> set (snd e) \<longrightarrow> fst e = node"
      using other [OF _ _ x] by metis
    from assms(1) x have ex: "\<exists>e\<in>set ?m. x \<in> set (snd e)" by force
    from fold_reposition_elements [OF only, of pg st] ex att
    show "elements ?st' x =
        (if has_box pg node
         then map_option (restyle (the (getBoundingClientRect pg node))) (elements st x)
         else elements st x)"
      by (simp add: updateOverlayPositions_def)
  qed
  have B: "\<not> parent_in_document pg node \<longrightarrow>
            \<not> map_has (maskedElements ?st') node \<and> (\<forall>x\<in>set overlays. x \<notin> set (body ?st'))"
  proof (intro impI conjI ballI)
    assume det: "\<not> parent_in_document pg node"
    with assms(1) show "\<not> map_has (maskedElements ?st') node"
      by (force simp: map_has_def updateOverlayPositions_def fold_reposition_maskedElements)
    fix x assume "x \<in> set overlays"
    with det assms(1) show "x \<notin> set (body ?st')"
      by (force simp: updateOverlayPositions_def fold_reposition_body)
  qed
  have C: "created ?st' = created st"
    by (simp add: updateOverlayPositions_def fold_reposition_created)
  have D: "set (body ?st') \<subseteq> set (body st)"
    by (simp add: updateOverlayPositions_def fold_reposition_body)
  have E: "\<forall>x. map_option piiType (elements ?st' x) = map_option piiType (elements st x)"
    by (simp add: updateOverlayPositions_def fold_reposition_piiType)
  from A B C D E show ?thesis by (intro conjI)
qed


lemma reposition_sample_facts:
  "parent_in_document sample_page 1"
  "has_box sample_page 1"
  "\<not> parent_in_document detached_page 1"
  "elements (page_state scanned_system) 0 \<noteq> None"
  "getBoundingClientRect sample_page 1 =
     Some \<lparr>r_left = 10, r_top = 20, r_width = 88, r_height = 16\<rparr>"
  by code_simp+

theorem reposition_entries_witness:
  "(1, [0]) \<in> set (maskedElements (page_state scanned_system)) \<and>
   disjoint_overlays (maskedElements (page_state scanned_system)) \<and>
   parent_in_document sample_page 1 \<and> has_box sample_page 1 \<and>
   0 \<in> set (body (updateOverlayPositions sample_page (page_state scanned_system))) \<and>
   map_option style (elements (updateOverlayPositions sample_page (page_state scanned_system)) 0) =
     getBoundingClientRect sample_page 1 \<and>
   \<not> parent_in_document detached_page 1 \<and>
   \<not> map_has (maskedElements (updateOverlayPositions detached_page (page_state scanned_system))) 1 \<and>
   0 \<notin> set (body (updateOverlayPositions detached_page (page_state scanned_system)))"
proof -
  let ?st = "page_state scanned_system"
  have h1: "(1, [0]) \<in> set (maskedElements ?st)"
    by (simp add: scanned_system_fields)
  have h2: "disjoint_overlays (maskedElements ?st)"
    by (simp add: scanned_system_fields disjoint_overlays_def)
  note a = reposition_entries [OF h1 h2, of sample_page, THEN conjunct1, rule_format,
      OF reposition_sample_facts(1)]
  note d = reposition_entries [OF h1 h2, of detached_page, THEN conjunct2, THEN conjunct1,
      rule_format, OF reposition_sample_facts(3)]
  from a have a1: "0 \<in> set (body (updateOverlayPositions sample_page ?st))"
    by (simp add: scanned_system_fields)
  from a reposition_sample_facts(2)
  have "elements (updateOverlayPositions sample_page ?st) 0 =
      map_option (restyle (the (getBoundingClientRect sample_page 1))) (elements ?st 0)"
    by simp
  with reposition_sample_facts(4,5)
  have a2: "map_option style (elements (updateOverlayPositions sample_page ?st) 0) =
      getBoundingClientRect sample_page 1"
    by (auto simp: restyle_def)
  from d have d2: "0 \<notin> set (body (updateOverlayPositions detached_page ?st))" by simp
  from h1 h2 reposition_sample_facts(1,2,3) a1 a2 d d2 show ?thesis by (intro conjI) simp_all
qed

section \<open>Invariants of the content script\<close>

text \<open>
  What holds of the state whenever an event has been handled: the detector of an
  initialised scanner is initialised; no overlay is registered under two nodes; and
  every registered overlay has been created.
\<close>

definition wf_registry :: "(node \<times> element_id list) list \<Rightarrow> nat \<Rightarrow> bool" where
  "wf_registry m c \<longleftrightarrow> disjoint_overlays m \<and> (\<forall>e\<in>set m. \<forall>x\<in>set (snd e). x < c)"

definition wf_state :: "state \<Rightarrow> bool" where
  "wf_state st \<longleftrightarrow>
     (isInitialized st \<longrightarrow> detectorInitialized (detector st)) \<and>
     wf_registry (maskedElements st) (created st)"

lemma set_map_set: "set (map_set m k v) \<subseteq> insert (k, v) (set m)"
  by (induction m) auto

lemma map_set_other: "e \<in> set (map_set m k v) \<Longrightarrow> fst e \<noteq> k \<Longrightarrow> e \<in> set m"
  using set_map_set [of m k v] by auto

lemma wf_registry_map_set:
  assumes "wf_registry m c" and "c \<le> c'" and "\<forall>x\<in>set v. x < c'"
    and "\<forall>e\<in>set m. fst e \<noteq> k \<longrightarrow> set (snd e) \<inter> set v = {}"
  shows "wf_registry (map_set m k v) c'"
  unfolding wf_registry_def disjoint_overlays_def
proof (intro conjI ballI impI)
  fix e e' assume e: "e \<in> set (map_set m k v)" and e': "e' \<in> set (map_set m k v)"
    and ne: "fst e \<noteq> fst e'"
  from e e' set_map_set [of m k v] have "e = (k, v) \<or> e \<in> set m" "e' = (k, v) \<or> e' \<in> set m"
    by auto
  then show "set (snd e) \<inter> set (snd e') = {}"
    using ne assms(1,4) unfolding wf_registry_def disjoint_overlays_def
    by (elim disjE) (simp, fastforce, fastforce, blast)
next
  fix e x assume "e \<in> set (map_set m k v)" and "x \<in> set (snd e)"
  with set_map_set [of m k v] have "(e = (k, v) \<and> x \<in> set v) \<or> (e \<in> set m \<and> x \<in> set (snd e))"
    by auto
  with assms(1,2,3) show "x < c'" unfolding wf_registry_def by fastforce
qed

lemma map_get_has: "map_has m k \<Longrightarrow> \<exists>v. map_get m k = Some v \<and> (k, v) \<in> set m"
  unfolding map_has_def map_get_def
  by (metis imageE map_of_SomeD prod.collapse weak_map_of_SomeI)

lemma map_has_map_set: "map_has (map_set m k v) k"
  by (induction m) (auto simp: map_has_def)

lemma wf_registry_addOverlay:
  assumes "wf_registry (maskedElements st) (created st)"
  shows "wf_registry (maskedElements (addOverlay st element rect ty))
           (created (addOverlay st element rect ty))"
proof -
  let ?m = "maskedElements st" and ?c = "created st"
  let ?m1 = "if \<not> map_has ?m element then map_set ?m element [] else ?m"
  have m1: "wf_registry ?m1 ?c"
    using wf_registry_map_set [OF assms, of ?c "[]" element] assms by simp
  have "\<exists>old. map_get ?m1 element = Some old \<and> (element, old) \<in> set ?m1"
  proof (cases "map_has ?m element")
    case True
    then show ?thesis using map_get_has [of ?m element] by simp
  next
    case False
    from map_get_has [OF map_has_map_set, of ?m element "[]"] False show ?thesis by simp
  qed
  then obtain old where old: "map_get ?m1 element = Some old" "(element, old) \<in> set ?m1"
    by blast
  have b: "\<forall>x\<in>set (old @ [?c]). x < ?c + 1"
    using m1 old(2) unfolding wf_registry_def by fastforce
  have d: "\<forall>e\<in>set ?m1. fst e \<noteq> element \<longrightarrow> set (snd e) \<inter> set (old @ [?c]) = {}"
  proof (intro ballI impI)
    fix e assume e: "e \<in> set ?m1" and ne: "fst e \<noteq> element"
    from m1 e old(2) ne have "set (snd e) \<inter> set old = {}"
      unfolding wf_registry_def disjoint_overlays_def by fastforce
    moreover from m1 e have "?c \<notin> set (snd e)" unfolding wf_registry_def by fastforce
    ultimately show "set (snd e) \<inter> set (old @ [?c]) = {}" by auto
  qed
  from wf_registry_map_set [OF m1 _ b d] old(1)
  show ?thesis by (simp add: addOverlay_def Let_def)
qed


text \<open>The part of the state that the invariant reads.\<close>

definition wf_part :: "state \<Rightarrow> state \<Rightarrow> bool" where
  "wf_part st st' \<longleftrightarrow>
     detector st' = detector st \<and> isInitialized st' = isInitialized st \<and>
     maskedElements st' = maskedElements st \<and> created st' = created st"

lemma wf_state_part: "wf_part st st' \<Longrightarrow> wf_state st \<Longrightarrow> wf_state st'"
  by (simp add: wf_part_def wf_state_def)

lemma wf_state_addOverlay: "wf_state st \<Longrightarrow> wf_state (addOverlay st element rect ty)"
proof -
  assume w: "wf_state st"
  then have "wf_registry (maskedElements (addOverlay st element rect ty))
      (created (addOverlay st element rect ty))"
    by (intro wf_registry_addOverlay) (simp add: wf_state_def)
  moreover have "detector (addOverlay st element rect ty) = detector st"
    "isInitialized (addOverlay st element rect ty) = isInitialized st"
    by (simp_all add: addOverlay_def Let_def)
  ultimately show ?thesis using w by (simp add: wf_state_def)
qed

lemma wf_state_mask_finding: "wf_state st \<Longrightarrow> wf_state (mask_finding pg element t pii st)"
proof -
  have r: "wf_state st \<Longrightarrow>
      wf_state (fold (\<lambda>rect st. if P rect then addOverlay st element rect ty else st) rects st)"
    for P ty rects st
    by (induction rects arbitrary: st) (simp_all add: wf_state_addOverlay)
  assume "wf_state st"
  then show ?thesis
    by (cases "mask_range t pii") (auto simp: mask_finding_def intro: r)
qed

lemma wf_state_maskElement: "wf_state st \<Longrightarrow> wf_state (maskElement pg st element piiItems)"
  unfolding maskElement_def
  by (induction piiItems arbitrary: st) (simp_all add: wf_state_mask_finding)

lemma wf_state_scan_items:
  assumes "wf_state st"
  shows "wf_state (fst (scan_items pg st node piiItems found))"
proof (cases "filter (\<lambda>item. enabledFilters st (f_type item)) piiItems = []")
  case True
  have "wf_part st (st\<lparr>processedNodes := insert node (processedNodes st)\<rparr>)"
    by (simp add: wf_part_def)
  from wf_state_part [OF this assms] True show ?thesis by (simp add: scan_items_eq)
next
  case False
  let ?m = "maskElement pg st node (filter (\<lambda>item. enabledFilters st (f_type item)) piiItems)"
  have "wf_part ?m (fst (scan_items pg st node piiItems found))"
    using False by (simp add: wf_part_def scan_items_eq)
  from wf_state_part [OF this wf_state_maskElement [OF assms]] show ?thesis .
qed

lemma wf_state_scan_finish: "wf_state st \<Longrightarrow> wf_state (scan_finish st found)"
proof -
  have "wf_part st (scan_finish st found)"
    by (cases "isEnabled st")
      (simp_all add: wf_part_def scan_finish_def updateBadge_def updatePrivacyBadge_def)
  then show "wf_state st \<Longrightarrow> wf_state (scan_finish st found)" by (rule wf_state_part)
qed

lemma wf_state_scan_loop: "wf_state st \<Longrightarrow> wf_state (fst (scan_loop pg st nodes found))"
proof (induction nodes arbitrary: st found)
  case Nil
  then show ?case by (simp add: scan_loop.simps wf_state_scan_finish)
next
  case (Cons node rest)
  show ?case
  proof (cases "skipped pg st node")
    case True
    with Cons show ?thesis by (simp only: scan_loop_skip)
  next
    case False
    show ?thesis
    proof (cases "snd (detect_begin (detector st) (Some (textContent pg node)))")
      case (Done piiItems)
      from Cons.IH [OF wf_state_scan_items [OF Cons.prems]] show ?thesis
        by (simp only: scan_loop_done [OF False Done])
    next
      case (Awaiting s t)
      with Cons.prems show ?thesis by (simp only: scan_loop_wait [OF False Awaiting] fst_conv)
    qed
  qed
qed


lemma wf_registry_filter: "wf_registry m c \<Longrightarrow> wf_registry (filter P m) c"
  by (auto simp: wf_registry_def disjoint_overlays_def)

lemma wf_state_clearAllMasks: "wf_state st \<Longrightarrow> wf_state (clearAllMasks st)"
  by (simp add: wf_state_def clearAllMasks_eq wf_registry_def disjoint_overlays_def)

lemma wf_state_resetPrivacyData: "wf_state st \<Longrightarrow> wf_state (resetPrivacyData st)"
  by (simp add: wf_state_def resetPrivacyData_def)

lemma fold_reposition_detector:
  "detector (fold (reposition_entry pg) es st) = detector st \<and>
   isInitialized (fold (reposition_entry pg) es st) = isInitialized st"
proof (induction es arbitrary: st)
  case Nil
  show ?case by simp
next
  case (Cons e es)
  have "detector (reposition_entry pg e st) = detector st"
    "isInitialized (reposition_entry pg e st) = isInitialized st"
    by (simp_all add: reposition_entry_eq)
  with Cons.IH [of "reposition_entry pg e st"] show ?case by simp
qed

lemma wf_state_updateOverlayPositions: "wf_state st \<Longrightarrow> wf_state (updateOverlayPositions pg st)"
  by (simp add: wf_state_def updateOverlayPositions_def fold_reposition_detector
      fold_reposition_created fold_reposition_maskedElements wf_registry_filter)

lemma wf_state_scanPage: "wf_state (page_state sys) \<Longrightarrow> wf_state (page_state (scanPage pg sys))"
proof -
  assume w: "wf_state (page_state sys)"
  let ?st1 = "resetPrivacyData (clearAllMasks (page_state sys))"
  from w have "wf_state (fst (scan_loop pg ?st1 (getTextNodes pg) 0))"
    by (intro wf_state_scan_loop wf_state_resetPrivacyData wf_state_clearAllMasks)
  with w show ?thesis by (simp add: scanPage_def split_beta)
qed

lemma wf_state_resume: "wf_state (page_state sys) \<Longrightarrow> wf_state (page_state (resume pg k outcome sys))"
proof -
  assume w: "wf_state (page_state sys)"
  show ?thesis
  proof (cases "k < length (in_flight sys)")
    case True
    let ?p = "in_flight sys ! k"
    let ?r = "scan_items pg (page_state sys) (awaited_node ?p)
        (snd (detect_resume (awaited_text ?p) outcome)) (totalFound ?p)"
    from w have "wf_state (fst (scan_loop pg (fst ?r) (remaining ?p) (snd ?r)))"
      by (intro wf_state_scan_loop wf_state_scan_items)
    with True show ?thesis by (simp add: resume_def Let_def split_beta)
  next
    case False
    with w show ?thesis by (simp add: resume_def)
  qed
qed

lemma wf_state_handle: "wf_state (page_state sys) \<Longrightarrow> wf_state (page_state (handle pg ev sys))"
proof (cases ev)
  case (Startup acq)
  assume w: "wf_state (page_state sys)"
  have "detectorInitialized (init acq new_detector)"
    by (cases acq) (simp_all add: init_def)
  with w have "wf_state (page_state (sys\<lparr>page_state := (page_state sys)
       \<lparr>detector := init acq new_detector, isInitialized := True\<rparr>\<rparr>))"
    by (simp add: wf_state_def)
  from wf_state_scanPage [OF this] Startup show ?thesis by simp
next
  case (Toggle enabled)
  assume w: "wf_state (page_state sys)"
  then have w1: "wf_state (page_state (sys\<lparr>page_state := (page_state sys)\<lparr>isEnabled := enabled\<rparr>\<rparr>))"
    by (simp add: wf_state_def)
  from wf_state_scanPage [OF w1, of pg] wf_state_clearAllMasks [OF w1] Toggle show ?thesis
    by (cases enabled) (simp_all add: Let_def)
next
  case Get_status
  assume "wf_state (page_state sys)"
  with Get_status show ?thesis by simp
next
  case (Filter_change ty enabled)
  assume "wf_state (page_state sys)"
  with Filter_change show ?thesis by (simp add: wf_state_def)
next
  case Rescan
  assume "wf_state (page_state sys)"
  from wf_state_scanPage [OF this, of pg] Rescan show ?thesis by simp
next
  case Rescan_timeout
  assume "wf_state (page_state sys)"
  from wf_state_scanPage [OF this, of pg] Rescan_timeout show ?thesis by simp
next
  case Scroll_or_resize
  assume "wf_state (page_state sys)"
  from wf_state_updateOverlayPositions [OF this, of pg] Scroll_or_resize show ?thesis by simp
next
  case (Prompt_settled k outcome)
  assume "wf_state (page_state sys)"
  from wf_state_resume [OF this, of pg k outcome] Prompt_settled show ?thesis by simp
qed

text \<open>
  The invariant holds from the start on, whatever events arrive and whatever the page
  is at each of them.
\<close>

lemma wf_state_run: "wf_state (page_state sys) \<Longrightarrow> wf_state (page_state (run evs sys))"
  by (induction evs arbitrary: sys) (auto simp: wf_state_handle)

lemma initialised_invariant:
  "isInitialized (page_state (run evs start_system)) \<Longrightarrow>
   detectorInitialized (detector (page_state (run evs start_system)))"
proof -
  have "wf_state (page_state start_system)"
    by (simp add: start_system_def initial_state_def wf_state_def wf_registry_def
        disjoint_overlays_def)
  from wf_state_run [OF this, of evs] show "isInitialized (page_state (run evs start_system)) \<Longrightarrow>
   detectorInitialized (detector (page_state (run evs start_system)))"
    by (simp add: wf_state_def)
qed

lemma registry_invariant:
  "disjoint_overlays (maskedElements (page_state (run evs start_system)))"
proof -
  have "wf_state (page_state start_system)"
    by (simp add: start_system_def initial_state_def wf_state_def wf_registry_def
        disjoint_overlays_def)
  from wf_state_run [OF this, of evs] show ?thesis
    by (simp add: wf_state_def wf_registry_def)
qed

end
